theory Spec2Isabelle
  imports Main "HOL-Library.Word" "HOL-Library.Signed_Division"
begin

unbundle bit_operations_syntax

section \<open>Data model (poly.h)\<close>

text \<open>
  \<^verbatim>\<open>typedef long poly_coeff_t;\<close> and \<^verbatim>\<open>typedef int poly_exp_t;\<close>: 64-bit and 32-bit
  two's-complement integers. Arithmetic on them wraps around; comparisons of exponents
  are signed and therefore go through \<open>sint\<close>.
\<close>

type_synonym poly_coeff_t = "64 word"
type_synonym poly_exp_t = "32 word"

text \<open>
  \<^verbatim>\<open>struct Poly { union { poly_coeff_t coeff; size_t size; }; struct Mono *arr; }\<close> and
  \<^verbatim>\<open>struct Mono { Poly p; poly_exp_t exp; }\<close>.
  \<open>Coeff c\<close> is the case \<^verbatim>\<open>arr == NULL\<close>; \<open>Terms arr\<close> is the case \<^verbatim>\<open>arr != NULL\<close>, the
  field \<^verbatim>\<open>size\<close> being the length of the list.
\<close>

datatype Poly = Coeff poly_coeff_t | Terms "Mono list"
  and Mono = Mono (mono_p: Poly) (mono_exp: poly_exp_t)

text \<open>Failures of the C code: a failed \<^verbatim>\<open>assert\<close>, and a read past the end of an array.\<close>

datatype error = AssertionFailed | OutOfBounds

definition bnd :: "error + 'a \<Rightarrow> ('a \<Rightarrow> error + 'b) \<Rightarrow> error + 'b" where
  "bnd m f = (case m of Inl e \<Rightarrow> Inl e | Inr x \<Rightarrow> f x)"

fun mapM :: "('a \<Rightarrow> error + 'b) \<Rightarrow> 'a list \<Rightarrow> error + 'b list" where
  "mapM f [] = Inr []"
| "mapM f (x # xs) = bnd (f x) (\<lambda>y. bnd (mapM f xs) (\<lambda>ys. Inr (y # ys)))"

lemma bnd_Inl [simp]: "bnd (Inl e) f = Inl e"
  by (simp add: bnd_def)

lemma bnd_Inr [simp]: "bnd (Inr x) f = f x"
  by (simp add: bnd_def)

lemma bnd_cong [fundef_cong]:
  "m = m' \<Longrightarrow> (\<And>x. m' = Inr x \<Longrightarrow> f x = f' x) \<Longrightarrow> bnd m f = bnd m' f'"
  by (cases m') (simp_all add: bnd_def)

lemma mapM_cong [fundef_cong]:
  "xs = ys \<Longrightarrow> (\<And>x. x \<in> set ys \<Longrightarrow> f x = g x) \<Longrightarrow> mapM f xs = mapM g ys"
  by (induction ys arbitrary: xs) (auto cong: bnd_cong)

definition MonoGetExp :: "Mono \<Rightarrow> poly_exp_t" where
  "MonoGetExp m = mono_exp m"

definition PolyFromCoeff :: "poly_coeff_t \<Rightarrow> Poly" where
  "PolyFromCoeff c = Coeff c"

text \<open>
  An array is modelled by the list of its entries; \<^verbatim>\<open>MonoNewArray\<close> returns \<^verbatim>\<open>NULL\<close>
  exactly for size 0, so the empty list stands for the null pointer.
\<close>

definition PolyFromSizeAndArray :: "nat \<Rightarrow> Mono list \<Rightarrow> error + Poly" where
  "PolyFromSizeAndArray size_arg arr =
     (if arr \<noteq> [] \<and> size_arg \<noteq> 0 then Inr (Terms (take size_arg arr)) else Inl AssertionFailed)"

definition PolyZero :: Poly where
  "PolyZero = PolyFromCoeff 0"

definition PolyIsCoeff :: "Poly \<Rightarrow> bool" where
  "PolyIsCoeff p = (case p of Coeff c \<Rightarrow> True | Terms arr \<Rightarrow> False)"

text \<open>The union member \<^verbatim>\<open>coeff\<close>: it shares its storage with \<^verbatim>\<open>size\<close>.\<close>

definition Poly_coeff :: "Poly \<Rightarrow> poly_coeff_t" where
  "Poly_coeff p = (case p of Coeff c \<Rightarrow> c | Terms arr \<Rightarrow> of_nat (length arr))"

definition PolyIsZero :: "Poly \<Rightarrow> bool" where
  "PolyIsZero p = (PolyIsCoeff p \<and> Poly_coeff p = 0)"

definition MonoFromPoly :: "Poly \<Rightarrow> poly_exp_t \<Rightarrow> error + Mono" where
  "MonoFromPoly p n = (if n = 0 \<or> \<not> PolyIsZero p then Inr (Mono p n) else Inl AssertionFailed)"

fun PolyClone :: "Poly \<Rightarrow> error + Poly"
  and MonoClone :: "Mono \<Rightarrow> error + Mono" where
  "PolyClone (Coeff c) = Inr (PolyFromCoeff c)"
| "PolyClone (Terms arr) =
     bnd (mapM MonoClone arr) (\<lambda>new_array. PolyFromSizeAndArray (length arr) new_array)"
| "MonoClone (Mono p e) = bnd (PolyClone p) (\<lambda>q. Inr (Mono q e))"

section \<open>Monomial arrays (mono\_array.c)\<close>

definition TrimAndInterpretMonoArr :: "Mono list \<Rightarrow> nat \<Rightarrow> nat \<Rightarrow> error + Poly" where
  "TrimAndInterpretMonoArr array_to_resize used reserved =
     (if used = 0 then Inr PolyZero
      else if length array_to_resize < used then Inl OutOfBounds
      else if used = 1 \<and> PolyIsZero (mono_p (array_to_resize ! 0)) then Inr PolyZero
      else if used = 1 \<and> MonoGetExp (array_to_resize ! 0) = 0
                \<and> PolyIsCoeff (mono_p (array_to_resize ! 0))
        then Inr (PolyFromCoeff (Poly_coeff (mono_p (array_to_resize ! 0))))
      else if used = reserved then PolyFromSizeAndArray reserved array_to_resize
      else PolyFromSizeAndArray used (take used array_to_resize))"

text \<open>
  \<^verbatim>\<open>MonoSort\<close> calls the C library's \<^verbatim>\<open>qsort\<close> with a comparator on the (signed)
  exponents. The library function is modelled by a stable sort on that key.
\<close>

definition MonoSort :: "Mono list \<Rightarrow> Mono list" where
  "MonoSort array_to_sort = sort_key (\<lambda>m. sint (mono_exp m)) array_to_sort"

section \<open>Addition (poly.c)\<close>

definition PolyAddTwoCoeffs :: "Poly \<Rightarrow> Poly \<Rightarrow> error + Poly" where
  "PolyAddTwoCoeffs p q = Inr (PolyFromCoeff (Poly_coeff p + Poly_coeff q))"

text \<open>
  \<^verbatim>\<open>PolyAddCoeffIfPDoesntHaveConst\<close>: a new array of \<^verbatim>\<open>p->size + 1\<close> entries, the
  monomial \<open>q x\<^sup>0\<close> first, then clones of the monomials of \<open>p\<close>.
\<close>

definition PolyAddCoeffIfPDoesntHaveConst :: "Poly \<Rightarrow> Poly \<Rightarrow> error + Poly" where
  "PolyAddCoeffIfPDoesntHaveConst p q =
     (case p of
        Coeff c \<Rightarrow> Inl OutOfBounds
      | Terms arr \<Rightarrow>
          bnd (MonoFromPoly q 0) (\<lambda>m0.
          bnd (mapM MonoClone arr) (\<lambda>clones.
          PolyFromSizeAndArray (length (m0 # clones)) (m0 # clones))))"

text \<open>
  \<^verbatim>\<open>CopyWhatsLeft\<close>: appends clones of the monomials not yet consumed, of \<open>q\<close> when \<open>p\<close>
  is exhausted, else of \<open>p\<close> when \<open>q\<close> is exhausted. The arguments are the unread
  suffixes \<^verbatim>\<open>p->arr[index_p..]\<close> and \<^verbatim>\<open>q->arr[index_q..]\<close>.
\<close>

definition CopyWhatsLeft :: "Mono list \<Rightarrow> Mono list \<Rightarrow> Mono list \<Rightarrow> error + Mono list" where
  "CopyWhatsLeft rest_p rest_q array_for_copy =
     (if rest_p = [] then bnd (mapM MonoClone rest_q) (\<lambda>cs. Inr (array_for_copy @ cs))
      else if rest_q = [] then bnd (mapM MonoClone rest_p) (\<lambda>cs. Inr (array_for_copy @ cs))
      else Inr array_for_copy)"

text \<open>
  The mutually recursive core of \<^verbatim>\<open>PolyAdd\<close>. \<open>PolyAddTwoNonCoeffs_while\<close> is the
  \<^verbatim>\<open>while\<close> loop of \<^verbatim>\<open>PolyAddTwoNonCoeffs\<close>; its state is the unread suffix of each
  array and the filled part of \<^verbatim>\<open>new_array\<close>, and it returns that state at loop exit.
  The static helper \<^verbatim>\<open>PolyAddCoeffToNonCoeff\<close> is only ever called with exactly one
  constant argument (on two constants the C function would swap its arguments forever),
  so the model has no equation for two constants.
\<close>

lemma size_Mono_eq: "size m = Suc (size (mono_p m))"
  by (cases m) simp

function (sequential) PolyAdd :: "Poly \<Rightarrow> Poly \<Rightarrow> error + Poly"
  and PolyAddCoeffToNonCoeff :: "Poly \<Rightarrow> Poly \<Rightarrow> error + Poly"
  and PolyAddCoeffIfPhasConst :: "Poly \<Rightarrow> Poly \<Rightarrow> error + Poly"
  and PolyAddTwoNonCoeffs_while ::
    "Mono list \<Rightarrow> Mono list \<Rightarrow> Mono list \<Rightarrow> error + (Mono list \<times> Mono list \<times> Mono list)"
  and MonoAdd :: "Mono \<Rightarrow> Mono \<Rightarrow> error + Mono" where
  "PolyAdd (Coeff a) (Coeff b) = PolyAddTwoCoeffs (Coeff a) (Coeff b)"
| "PolyAdd (Coeff a) (Terms arr) = PolyAddCoeffToNonCoeff (Coeff a) (Terms arr)"
| "PolyAdd (Terms arr) (Coeff b) = PolyAddCoeffToNonCoeff (Terms arr) (Coeff b)"
| "PolyAdd (Terms arr_p) (Terms arr_q) =
     bnd (PolyAddTwoNonCoeffs_while arr_p arr_q []) (\<lambda>(rest_p, rest_q, new_array).
     bnd (CopyWhatsLeft rest_p rest_q new_array) (\<lambda>new_array'.
     TrimAndInterpretMonoArr new_array' (length new_array') (length arr_p + length arr_q)))"
| "PolyAddCoeffToNonCoeff (Coeff a) (Terms arr) = PolyAddCoeffToNonCoeff (Terms arr) (Coeff a)"
| "PolyAddCoeffToNonCoeff (Terms arr_p) (Terms arr_q) = Inl AssertionFailed"
| "PolyAddCoeffToNonCoeff (Terms arr) (Coeff b) =
     (if PolyIsZero (Coeff b) then PolyClone (Terms arr)
      else (case arr of
              [] \<Rightarrow> Inl OutOfBounds
            | m # ms \<Rightarrow>
                if MonoGetExp m = 0 then PolyAddCoeffIfPhasConst (Terms arr) (Coeff b)
                else PolyAddCoeffIfPDoesntHaveConst (Terms arr) (Coeff b)))"
| "PolyAddCoeffIfPhasConst (Terms (m # ms)) q =
     bnd (PolyAdd (mono_p m) q) (\<lambda>new_poly_for_x0.
     if PolyIsZero new_poly_for_x0
     then bnd (mapM MonoClone ms) (\<lambda>result_array.
          PolyFromSizeAndArray (length result_array) result_array)
     else bnd (MonoFromPoly new_poly_for_x0 0) (\<lambda>m0.
          bnd (mapM MonoClone ms) (\<lambda>clones.
          PolyFromSizeAndArray (length (m0 # clones)) (m0 # clones))))"
| "PolyAddCoeffIfPhasConst (Terms []) q = Inl OutOfBounds"
| "PolyAddCoeffIfPhasConst (Coeff a) q = Inl OutOfBounds"
| "PolyAddTwoNonCoeffs_while (mono_from_p # rest_p) (mono_from_q # rest_q) new_array =
     (if MonoGetExp mono_from_p = MonoGetExp mono_from_q
      then bnd (MonoAdd mono_from_p mono_from_q) (\<lambda>new_mono.
           PolyAddTwoNonCoeffs_while rest_p rest_q
             (if \<not> PolyIsZero (mono_p new_mono) then new_array @ [new_mono] else new_array))
      else if sint (MonoGetExp mono_from_q) < sint (MonoGetExp mono_from_p)
      then bnd (MonoClone mono_from_q) (\<lambda>c.
           PolyAddTwoNonCoeffs_while (mono_from_p # rest_p) rest_q (new_array @ [c]))
      else bnd (MonoClone mono_from_p) (\<lambda>c.
           PolyAddTwoNonCoeffs_while rest_p (mono_from_q # rest_q) (new_array @ [c])))"
| "PolyAddTwoNonCoeffs_while [] rest_q new_array = Inr ([], rest_q, new_array)"
| "PolyAddTwoNonCoeffs_while rest_p [] new_array = Inr (rest_p, [], new_array)"
| "MonoAdd m n = bnd (PolyAdd (mono_p m) (mono_p n)) (\<lambda>s. Inr (Mono s (mono_exp m)))"
  by pat_completeness auto

termination
  by (relation "measure (\<lambda>x. case x of
        Inl (Inl (p, q)) \<Rightarrow> 4 * (size p + size q) + 3
      | Inl (Inr (p, q)) \<Rightarrow> 4 * (size p + size q) + (if PolyIsCoeff p then 2 else 1)
      | Inr (Inl (p, q)) \<Rightarrow> 4 * (size p + size q)
      | Inr (Inr (Inl (ps, qs, acc))) \<Rightarrow> 4 * (size_list size ps + size_list size qs) + 1
      | Inr (Inr (Inr (m, n))) \<Rightarrow> 4 * (size m + size n))")
     (auto simp: PolyIsCoeff_def, simp_all add: size_Mono_eq)


text \<open>
  The \<^verbatim>\<open>for\<close> loop of \<^verbatim>\<open>PolyAddMonos\<close>. The sorted array is rewritten in place; the state
  is \<open>kept = copy_array[0..new_index)\<close>, \<open>cur = copy_array[new_index]\<close> and the unread
  entries \<^verbatim>\<open>copy_array[i..count)\<close>. At loop exit the used part of the array is
  \<open>kept @ [cur]\<close>.
\<close>

fun PolyAddMonos_for :: "Mono list \<Rightarrow> Mono \<Rightarrow> Mono list \<Rightarrow> error + Mono list" where
  "PolyAddMonos_for kept cur [] = Inr (kept @ [cur])"
| "PolyAddMonos_for kept cur (m # rest) =
     (if MonoGetExp cur = MonoGetExp m
      then bnd (MonoAdd cur m) (\<lambda>new_mono. PolyAddMonos_for kept new_mono rest)
      else bnd (MonoClone m) (\<lambda>c.
           PolyAddMonos_for (if \<not> PolyIsZero (mono_p cur) then kept @ [cur] else kept) c rest))"

definition PolyAddMonos :: "nat \<Rightarrow> Mono list \<Rightarrow> error + Poly" where
  "PolyAddMonos count monos =
     (if count = 0 then Inr PolyZero
      else if length monos < count then Inl OutOfBounds
      else (case MonoSort (take count monos) of
              [] \<Rightarrow> Inl OutOfBounds
            | cur # rest \<Rightarrow>
                bnd (PolyAddMonos_for [] cur rest) (\<lambda>copy_array.
                TrimAndInterpretMonoArr copy_array (length copy_array) (length copy_array))))"

section \<open>Multiplication (poly.c)\<close>

text \<open>
  As for addition, the static helper \<^verbatim>\<open>PolyMulCoeffAndNonCoeff\<close> is only called with
  exactly one constant argument. \<^verbatim>\<open>MonoMul\<close> adds the two exponents as C \<^verbatim>\<open>int\<close>s; the
  sum is the 32-bit two's-complement sum.
\<close>

lemma size_in_list: "m \<in> set ms \<Longrightarrow> size (m :: Mono) < Suc (size_list size ms)"
  by (induction ms) auto

function (sequential) PolyMul :: "Poly \<Rightarrow> Poly \<Rightarrow> error + Poly"
  and PolyMulCoeffAndNonCoeff :: "Poly \<Rightarrow> Poly \<Rightarrow> error + Poly"
  and MonoMul :: "Mono \<Rightarrow> Mono \<Rightarrow> error + Mono"
  and MonoMulCoeff :: "Mono \<Rightarrow> Poly \<Rightarrow> error + Mono" where
  "PolyMul (Coeff a) (Coeff b) = Inr (PolyFromCoeff (b * a))"
| "PolyMul (Coeff a) (Terms arr) = PolyMulCoeffAndNonCoeff (Coeff a) (Terms arr)"
| "PolyMul (Terms arr) (Coeff b) = PolyMulCoeffAndNonCoeff (Terms arr) (Coeff b)"
| "PolyMul (Terms arr_p) (Terms arr_q) =
     bnd (mapM (\<lambda>m. mapM (\<lambda>n. MonoMul m n) arr_q) arr_p) (\<lambda>rows.
     PolyAddMonos (length (concat rows)) (concat rows))"
| "PolyMulCoeffAndNonCoeff (Coeff a) (Terms arr) = PolyMulCoeffAndNonCoeff (Terms arr) (Coeff a)"
| "PolyMulCoeffAndNonCoeff (Terms arr_p) (Terms arr_q) = Inl AssertionFailed"
| "PolyMulCoeffAndNonCoeff (Terms arr) (Coeff b) =
     (if PolyIsZero (Coeff b) then Inr PolyZero
      else bnd (mapM (\<lambda>m. MonoMulCoeff m (Coeff b)) arr) (\<lambda>result.
           PolyAddMonos (length arr) result))"
| "MonoMul m n =
     bnd (PolyMul (mono_p m) (mono_p n)) (\<lambda>r. Inr (Mono r (mono_exp m + mono_exp n)))"
| "MonoMulCoeff m coeff =
     (if PolyIsCoeff coeff
      then bnd (PolyMul (mono_p m) coeff) (\<lambda>r. Inr (Mono r (mono_exp m)))
      else Inl AssertionFailed)"
  by pat_completeness auto

termination
  by (relation "measure (\<lambda>x. case x of
        Inl (Inl (p, q)) \<Rightarrow> 4 * (size p + size q) + 3
      | Inl (Inr (p, q)) \<Rightarrow> 4 * (size p + size q) + (if PolyIsCoeff p then 2 else 1)
      | Inr (Inl (m, n)) \<Rightarrow> 4 * (size m + size n)
      | Inr (Inr (m, q)) \<Rightarrow> 4 * (size m + size q))")
     (auto simp: PolyIsCoeff_def dest!: size_in_list, simp_all add: size_Mono_eq)

section \<open>Negation and subtraction (poly.c)\<close>

fun PolyNeg :: "Poly \<Rightarrow> error + Poly"
  and MonoNeg :: "Mono \<Rightarrow> error + Mono" where
  "PolyNeg (Coeff c) = Inr (PolyFromCoeff ((- 1) * c))"
| "PolyNeg (Terms arr) =
     bnd (mapM MonoNeg arr) (\<lambda>new_mono_array.
     PolyFromSizeAndArray (length arr) new_mono_array)"
| "MonoNeg (Mono p e) = bnd (PolyNeg p) (\<lambda>negative_poly. MonoFromPoly negative_poly e)"

definition PolySub :: "Poly \<Rightarrow> Poly \<Rightarrow> error + Poly" where
  "PolySub p q = bnd (PolyNeg q) (\<lambda>negated_q. PolyAdd p negated_q)"


section \<open>Degree and equality (poly.c)\<close>

text \<open>The loop \<^verbatim>\<open>maxi = -1; for (...) { actual = ...; if (actual > maxi) maxi = actual; }\<close>.\<close>

fun max_for :: "('a \<Rightarrow> error + poly_exp_t) \<Rightarrow> 'a list \<Rightarrow> poly_exp_t \<Rightarrow> error + poly_exp_t" where
  "max_for f [] maxi = Inr maxi"
| "max_for f (m # ms) maxi =
     bnd (f m) (\<lambda>actual. max_for f ms (if sint maxi < sint actual then actual else maxi))"

lemma max_for_cong [fundef_cong]:
  "xs = ys \<Longrightarrow> (\<And>x. x \<in> set ys \<Longrightarrow> f x = g x) \<Longrightarrow> a = b \<Longrightarrow> max_for f xs a = max_for g ys b"
  by (induction ys arbitrary: xs a b) (auto cong: bnd_cong)

fun PolyDegBy :: "Poly \<Rightarrow> nat \<Rightarrow> error + poly_exp_t" where
  "PolyDegBy (Coeff c) var_idx = (if PolyIsZero (Coeff c) then Inr (- 1) else Inr 0)"
| "PolyDegBy (Terms arr) var_idx =
     (if var_idx = 0
      then (if arr = [] then Inl OutOfBounds else Inr (MonoGetExp (arr ! (length arr - 1))))
      else max_for (\<lambda>m. PolyDegBy (mono_p m) (var_idx - 1)) arr (- 1))"

fun PolyDeg :: "Poly \<Rightarrow> poly_exp_t"
  and MonoDeg :: "Mono \<Rightarrow> poly_exp_t" where
  "PolyDeg (Coeff c) = (if PolyIsZero (Coeff c) then - 1 else 0)"
| "PolyDeg (Terms arr) =
     fold (\<lambda>m maxi. if sint maxi < sint (MonoDeg m) then MonoDeg m else maxi) arr (- 1)"
| "MonoDeg (Mono p e) = e + PolyDeg p"

fun PolyIsEq :: "Poly \<Rightarrow> Poly \<Rightarrow> bool"
  and PolyIsEq_for :: "Mono list \<Rightarrow> Mono list \<Rightarrow> bool"
  and MonoIsEq :: "Mono \<Rightarrow> Mono \<Rightarrow> bool" where
  "PolyIsEq (Coeff a) (Coeff b) = (a = b)"
| "PolyIsEq (Coeff a) (Terms arr) = False"
| "PolyIsEq (Terms arr) (Coeff b) = False"
| "PolyIsEq (Terms arr_p) (Terms arr_q) =
     (if length arr_p \<noteq> length arr_q then False else PolyIsEq_for arr_p arr_q)"
| "PolyIsEq_for (m # ms) (n # ns) = (if \<not> MonoIsEq m n then False else PolyIsEq_for ms ns)"
| "PolyIsEq_for [] ns = True"
| "PolyIsEq_for ms [] = True"
| "MonoIsEq (Mono p e) (Mono q f) = (e = f \<and> PolyIsEq p q)"

section \<open>Evaluation (poly.h, poly.c)\<close>

text \<open>C division of \<^verbatim>\<open>int\<close>s truncates towards zero.\<close>

definition int_div :: "poly_exp_t \<Rightarrow> poly_exp_t \<Rightarrow> poly_exp_t" where
  "int_div a b = word_of_int (sint a sdiv sint b)"


lemma sint_int_div_2: "0 \<le> sint a \<Longrightarrow> sint (int_div a 2) = sint a div 2"
proof -
  assume a: "0 \<le> sint a"
  have b: "sint a < 2 ^ 31" using sint_lt [of a] by simp
  have "sint a sdiv 2 = sint a div 2" using a by (simp add: signed_divide_int_def sgn_if)
  moreover have "signed_take_bit 31 (sint a div 2) = sint a div 2"
    using a b by (intro signed_take_bit_int_eq_self) auto
  ultimately show ?thesis by (simp add: int_div_def sint_sbintrunc')
qed

lemma sint_minus_1: "0 < sint (n :: poly_exp_t) \<Longrightarrow> sint (n - 1) = sint n - 1"
proof -
  assume a: "0 < sint n"
  have b: "sint n < 2 ^ 31" using sint_lt [of n] by simp
  have "signed_take_bit 31 (sint n - 1) = sint n - 1"
    using a b by (intro signed_take_bit_int_eq_self) auto
  then show ?thesis by (simp add: sint_word_diff)
qed

lemma sint_pos_if: "0 \<le> sint (n :: poly_exp_t) \<Longrightarrow> n \<noteq> 0 \<Longrightarrow> 0 < sint n"
  by (metis order_le_less sint_0 signed_word_eqI)

function PowerOf :: "poly_coeff_t \<Rightarrow> poly_exp_t \<Rightarrow> error + poly_coeff_t" where
  "PowerOf x n =
     (if sint n < 0 then Inl AssertionFailed
      else if n = 0 then Inr 1
      else if n = 1 then Inr x
      else if n AND 1 \<noteq> 0 then bnd (PowerOf (x * x) (int_div (n - 1) 2)) (\<lambda>r. Inr (x * r))
      else PowerOf (x * x) (int_div n 2))"
  by pat_completeness auto

termination
proof (relation "measure (\<lambda>(x, n). nat (sint n))", goal_cases)
  case 1
  show ?case by simp
next
  case (2 x n)
  then have "0 < sint n" by (simp add: sint_pos_if)
  then show ?case by (simp add: sint_int_div_2 sint_minus_1)
next
  case (3 x n)
  then have "0 < sint n" by (simp add: sint_pos_if)
  then show ?case by (simp add: sint_int_div_2)
qed

definition MonoAt :: "Mono \<Rightarrow> poly_coeff_t \<Rightarrow> error + Poly" where
  "MonoAt m x =
     bnd (PowerOf x (mono_exp m)) (\<lambda>c. PolyMul (mono_p m) (PolyFromCoeff c))"

text \<open>The \<^verbatim>\<open>for\<close> loop of \<^verbatim>\<open>PolyAt\<close>, over the monomials not yet visited.\<close>

fun PolyAt_for :: "Mono list \<Rightarrow> poly_coeff_t \<Rightarrow> Poly \<Rightarrow> error + Poly" where
  "PolyAt_for [] x result = Inr result"
| "PolyAt_for (m # ms) x result =
     bnd (MonoAt m x) (\<lambda>new_poly.
     bnd (PolyAdd result new_poly) (\<lambda>result'. PolyAt_for ms x result'))"

definition PolyAt :: "Poly \<Rightarrow> poly_coeff_t \<Rightarrow> error + Poly" where
  "PolyAt p x =
     (case p of
        Coeff c \<Rightarrow> PolyClone p
      | Terms arr \<Rightarrow> PolyAt_for arr x PolyZero)"

section \<open>Summing arrays of monomials (poly.c)\<close>

text \<open>The argument \<open>monos\<close> is \<open>None\<close> for the null pointer.\<close>

definition PolyOwnMonos :: "nat \<Rightarrow> Mono list option \<Rightarrow> error + Poly" where
  "PolyOwnMonos count monos =
     (case monos of
        None \<Rightarrow> Inr PolyZero
      | Some arr \<Rightarrow> PolyAddMonos count arr)"

definition PolyCloneMonos :: "nat \<Rightarrow> Mono list option \<Rightarrow> error + Poly" where
  "PolyCloneMonos count monos =
     (case monos of
        None \<Rightarrow> Inr PolyZero
      | Some arr \<Rightarrow>
          if length arr < count then Inl OutOfBounds
          else bnd (mapM MonoClone (take count arr)) (\<lambda>clone_mono_array.
               PolyAddMonos count clone_mono_array))"

section \<open>Composition (poly.c)\<close>

text \<open>
  \<^verbatim>\<open>PolyPower\<close> has no assertion on its exponent and does not return for a negative one,
  so it is a partial function: \<open>None\<close> is "does not return".
\<close>

definition bndo :: "(error + 'a) option \<Rightarrow> ('a \<Rightarrow> (error + 'b) option) \<Rightarrow> (error + 'b) option" where
  "bndo m f = Option.bind m (\<lambda>r. case r of Inl e \<Rightarrow> Some (Inl e) | Inr x \<Rightarrow> f x)"

partial_function (option) PolyPower :: "Poly \<Rightarrow> poly_exp_t \<Rightarrow> (error + Poly) option" where
  "PolyPower p e =
     (if e = 0 then Some (Inr (PolyFromCoeff 1))
      else if e = 1 then Some (PolyClone p)
      else if e AND 1 \<noteq> 0
      then (case PolyMul p p of
              Inl er \<Rightarrow> Some (Inl er)
            | Inr foo1 \<Rightarrow>
                Option.bind (PolyPower foo1 (int_div (e - 1) 2)) (\<lambda>r.
                  case r of Inl er \<Rightarrow> Some (Inl er) | Inr foo2 \<Rightarrow> Some (PolyMul p foo2)))
      else (case PolyMul p p of
              Inl er \<Rightarrow> Some (Inl er)
            | Inr foo1 \<Rightarrow> PolyPower foo1 (int_div e 2)))"


declare PolyPower.simps [code]

lemma bndo_cong [fundef_cong]:
  "m = m' \<Longrightarrow> (\<And>x. m' = Some (Inr x) \<Longrightarrow> f x = f' x) \<Longrightarrow> bndo m f = bndo m' f'"
  by (cases m') (auto simp: bndo_def split: sum.splits)

text \<open>
  \<open>PolyComposeHelper_for\<close> is the \<^verbatim>\<open>for\<close> loop of \<^verbatim>\<open>PolyComposeHelper\<close>, over the
  monomials not yet visited. The array \<open>q\<close> is a list; reading \<^verbatim>\<open>q[var_id]\<close> beyond its
  end is an out-of-bounds read.
\<close>

fun MonoComposeHelper :: "Mono \<Rightarrow> nat \<Rightarrow> nat \<Rightarrow> Poly list \<Rightarrow> (error + Poly) option"
  and PolyComposeHelper :: "Poly \<Rightarrow> nat \<Rightarrow> nat \<Rightarrow> Poly list \<Rightarrow> (error + Poly) option"
  and PolyComposeHelper_for ::
    "Mono list \<Rightarrow> nat \<Rightarrow> nat \<Rightarrow> Poly list \<Rightarrow> Poly \<Rightarrow> (error + Poly) option" where
  "MonoComposeHelper (Mono p e) k var_id q =
     bndo (PolyComposeHelper p k (var_id + 1) q) (\<lambda>coeff.
     if e = 0 then Some (Inr coeff)
     else if var_id < k
     then (if var_id < length q
           then bndo (PolyPower (q ! var_id) e) (\<lambda>after_exp. Some (PolyMul coeff after_exp))
           else Some (Inl OutOfBounds))
     else Some (Inr PolyZero))"
| "PolyComposeHelper (Coeff c) k var_id q = Some (PolyClone (Coeff c))"
| "PolyComposeHelper (Terms arr) k var_id q = PolyComposeHelper_for arr k var_id q PolyZero"
| "PolyComposeHelper_for [] k var_id q result = Some (Inr result)"
| "PolyComposeHelper_for (m # ms) k var_id q result =
     bndo (MonoComposeHelper m k var_id q) (\<lambda>result_of_mono_compose.
     bndo (Some (PolyAdd result result_of_mono_compose)) (\<lambda>result'.
     PolyComposeHelper_for ms k var_id q result'))"

definition PolyCompose :: "Poly \<Rightarrow> nat \<Rightarrow> Poly list \<Rightarrow> (error + Poly) option" where
  "PolyCompose p k q = PolyComposeHelper p k 0 q"


declare MonoAdd.simps [simp del] MonoMul.simps [simp del] MonoMulCoeff.simps [simp del]
  PowerOf.simps [simp del]

section \<open>Canonical form (the data invariant of the specification)\<close>

text \<open>
  A constant is canonical. A term list is canonical when it is non-empty, its exponents
  are non-negative and strictly ascending, no coefficient is the zero constant, every
  coefficient is canonical, and it is not a single exponent-0 term with a constant
  coefficient (which the normalizer flattens to that constant).
\<close>

lemma size_mono_p_in_list [termination_simp]:
  "m \<in> set arr \<Longrightarrow> size (mono_p m) < Suc (size_list size arr)"
  using size_in_list [of m arr] by (simp add: size_Mono_eq)

fun canonical :: "Poly \<Rightarrow> bool"
  and canonical_mono :: "Mono \<Rightarrow> bool" where
  "canonical (Coeff c) = True"
| "canonical (Terms arr) =
     (arr \<noteq> [] \<and> (\<forall>m \<in> set arr. canonical_mono m)
      \<and> sorted_wrt (\<lambda>m n. sint (mono_exp m) < sint (mono_exp n)) arr
      \<and> \<not> (length arr = 1 \<and> mono_exp (hd arr) = 0 \<and> PolyIsCoeff (mono_p (hd arr))))"
| "canonical_mono (Mono p e) = (0 \<le> sint e \<and> \<not> PolyIsZero p \<and> canonical p)"

text \<open>The representation invariant asserted by \<^verbatim>\<open>PolyFromSizeAndArray\<close>: no empty array.\<close>

fun arrays_ok :: "Poly \<Rightarrow> bool" where
  "arrays_ok (Coeff c) = True"
| "arrays_ok (Terms arr) = (arr \<noteq> [] \<and> (\<forall>m \<in> set arr. arrays_ok (mono_p m)))"

text \<open>The number of variables \<open>x\<^sub>0, \<dots>, x\<^sub>d\<^sub>-\<^sub>1\<close> a polynomial is nested over.\<close>

fun nesting :: "Poly \<Rightarrow> nat" where
  "nesting (Coeff c) = 0"
| "nesting (Terms arr) = Suc (fold max (map (\<lambda>m. nesting (mono_p m)) arr) 0)"

text \<open>
  Well-formedness is canonical form without the requirement that coefficients are
  nonzero: it is the invariant the arithmetic preserves (a product of nonzero 64-bit
  coefficients can be zero, and \<^verbatim>\<open>PolyAddMonos\<close> can keep a zero term).
\<close>

fun well_formed :: "Poly \<Rightarrow> bool" where
  "well_formed (Coeff c) = True"
| "well_formed (Terms arr) =
     (arr \<noteq> [] \<and> (\<forall>m \<in> set arr. 0 \<le> sint (mono_exp m) \<and> well_formed (mono_p m))
      \<and> sorted_wrt (\<lambda>m n. sint (mono_exp m) < sint (mono_exp n)) arr
      \<and> \<not> (length arr = 1 \<and> mono_exp (hd arr) = 0 \<and> PolyIsCoeff (mono_p (hd arr))))"

text \<open>\<open>exps_le B p\<close>: no exponent of \<open>p\<close>, at any nesting level, exceeds \<open>B\<close>.\<close>

fun exps_le :: "nat \<Rightarrow> Poly \<Rightarrow> bool" where
  "exps_le B (Coeff c) = True"
| "exps_le B (Terms arr) =
     (\<forall>m \<in> set arr. sint (mono_exp m) \<le> int B \<and> exps_le B (mono_p m))"

text \<open>
  The meaning of a polynomial. The coefficients are read through a ring homomorphism \<open>h\<close>
  from the 64-bit coefficients into any commutative ring, the variable of nesting level
  \<open>d\<close> is given the value \<open>\<rho> d\<close>, and an exponent is read as an unsigned number (for a
  non-negative exponent that is its value).
\<close>

definition ring_hom :: "(poly_coeff_t \<Rightarrow> 'a :: comm_ring_1) \<Rightarrow> bool" where
  "ring_hom h = ((\<forall>a b. h (a + b) = h a + h b) \<and> (\<forall>a b. h (a * b) = h a * h b) \<and> h 1 = 1)"

fun eval :: "(poly_coeff_t \<Rightarrow> 'a :: comm_ring_1) \<Rightarrow> (nat \<Rightarrow> 'a) \<Rightarrow> nat \<Rightarrow> Poly \<Rightarrow> 'a" where
  "eval h \<rho> d (Coeff c) = h c"
| "eval h \<rho> d (Terms arr) =
     sum_list (map (\<lambda>m. eval h \<rho> (Suc d) (mono_p m) * \<rho> d ^ unat (mono_exp m)) arr)"

text \<open>
  The valuation that \<^verbatim>\<open>PolyCompose(p, k, q)\<close> is specified to realise: the variable \<open>x\<^sub>i\<close>
  of \<open>p\<close> stands for \<open>q[i]\<close> when \<open>i < k\<close> and for zero otherwise.
\<close>

definition substitution ::
  "(poly_coeff_t \<Rightarrow> 'a :: comm_ring_1) \<Rightarrow> (nat \<Rightarrow> 'a) \<Rightarrow> nat \<Rightarrow> Poly list \<Rightarrow> nat \<Rightarrow> 'a" where
  "substitution h \<rho> k q i = (if i < k then eval h \<rho> 0 (q ! i) else 0)"

text \<open>
  A sufficient condition for composition to stay within the exponent bound: with \<open>Q\<close> a
  bound on the exponents of the substituted polynomials, the exponents met along every
  path into \<open>p\<close>, each multiplied by \<open>Q\<close>, sum to at most \<open>C\<close>.
\<close>

fun compose_fits :: "nat \<Rightarrow> nat \<Rightarrow> Poly \<Rightarrow> bool" where
  "compose_fits Q C (Coeff c) = True"
| "compose_fits Q C (Terms arr) =
     (\<forall>m \<in> set arr. nat (sint (mono_exp m)) * Q \<le> C
        \<and> compose_fits Q (C - nat (sint (mono_exp m)) * Q) (mono_p m))"


section \<open>Basic lemmas\<close>

lemma bnd_InrE:
  assumes "bnd m f = Inr r"
  obtains x where "m = Inr x" and "f x = Inr r"
  using assms by (cases m) auto

lemma Poly_induct [case_names Coeff Terms]:
  assumes "\<And>c. P (Coeff c)"
    and "\<And>arr. (\<And>m. m \<in> set arr \<Longrightarrow> P (mono_p m)) \<Longrightarrow> P (Terms arr)"
  shows "P p"
proof -
  have "P p" and "P (mono_p m)" for m
    by (induction p and m) (auto intro: assms)
  then show ?thesis by simp
qed

lemma mapM_Inr_map:
  "(\<And>x. x \<in> set xs \<Longrightarrow> f x = Inr (g x)) \<Longrightarrow> mapM f xs = Inr (map g xs)"
  by (induction xs) auto

lemma mapM_Inr_id:
  "(\<And>x. x \<in> set xs \<Longrightarrow> f x = Inr x) \<Longrightarrow> mapM f xs = Inr xs"
  using mapM_Inr_map [of xs f id] by simp

lemma mapM_list_all2:
  "(\<And>x. x \<in> set xs \<Longrightarrow> \<exists>y. f x = Inr y \<and> R x y) \<Longrightarrow>
     \<exists>ys. mapM f xs = Inr ys \<and> list_all2 R xs ys"
proof (induction xs)
  case Nil
  then show ?case by simp
next
  case (Cons x xs)
  from Cons.prems [of x] obtain y where y: "f x = Inr y" "R x y" by auto
  from Cons.IH Cons.prems obtain ys where "mapM f xs = Inr ys" "list_all2 R xs ys" by auto
  with y show ?case by simp
qed

lemma canonical_mono_eq:
  "canonical_mono m =
     (0 \<le> sint (mono_exp m) \<and> \<not> PolyIsZero (mono_p m) \<and> canonical (mono_p m))"
  by (cases m) simp

lemma MonoClone_eq: "MonoClone m = bnd (PolyClone (mono_p m)) (\<lambda>q. Inr (Mono q (mono_exp m)))"
  by (cases m) simp

lemma MonoNeg_eq:
  "MonoNeg m = bnd (PolyNeg (mono_p m)) (\<lambda>negative_poly. MonoFromPoly negative_poly (mono_exp m))"
  by (cases m) simp

lemma MonoIsEq_eq: "MonoIsEq m n = (mono_exp m = mono_exp n \<and> PolyIsEq (mono_p m) (mono_p n))"
  by (cases m; cases n) simp

lemma PolyClone_id: "arrays_ok p \<Longrightarrow> PolyClone p = Inr p"
proof (induction p rule: Poly_induct)
  case (Coeff c)
  show ?case by (simp add: PolyFromCoeff_def)
next
  case (Terms arr)
  have "mapM MonoClone arr = Inr arr"
    using Terms by (intro mapM_Inr_id) (simp add: MonoClone_eq)
  then show ?case using Terms.prems by (simp add: PolyFromSizeAndArray_def)
qed

lemma canonical_arrays_ok: "canonical p \<Longrightarrow> arrays_ok p"
  by (induction p rule: Poly_induct) (auto simp: canonical_mono_eq)

lemma sint_add_no_overflow:
  "0 \<le> sint (a :: poly_exp_t) \<Longrightarrow> 0 \<le> sint b \<Longrightarrow> sint a + sint b \<le> 2147483647 \<Longrightarrow>
     sint (a + b) = sint a + sint b"
proof -
  assume "0 \<le> sint a" "0 \<le> sint b" "sint a + sint b \<le> 2147483647"
  then have "signed_take_bit 31 (sint a + sint b) = sint a + sint b"
    by (intro signed_take_bit_int_eq_self) auto
  then show ?thesis by (simp add: sint_word_add)
qed

section \<open>Ingestion through \<^verbatim>\<open>PolyAddMonos\<close>\<close>

text \<open>
  Claim C1. \<^verbatim>\<open>PolyAddMonos\<close> is claimed to discard every term whose coefficient is the zero
  constant. The loop tests \<^verbatim>\<open>copy_array[new_index]\<close> for zero only when the next
  exponent differs, and \<^verbatim>\<open>TrimAndInterpretMonoArr\<close> tests only a single survivor; the last
  merged term of two or more survivors is never tested. On the terms \<open>1\<close>, \<open>3 x\<^sup>2\<close>,
  \<open>-3 x\<^sup>2\<close> the result keeps the monomial \<open>0 x\<^sup>2\<close>.
\<close>

theorem C1_zero_term_survives:
  "PolyAddMonos 3 [Mono (Coeff 1) 0, Mono (Coeff 3) 2, Mono (Coeff (- 3)) 2]
     = Inr (Terms [Mono (Coeff 1) 0, Mono (Coeff 0) 2])"
  by code_simp

text \<open>
  Claim C7. Ingesting \<open>[(3, 2), (0, 5), (-3, 2)]\<close> with count 3 returns the constant 0.
\<close>

theorem C7_ingest_cancels:
  "PolyAddMonos 3 [Mono (Coeff 3) 2, Mono (Coeff 0) 5, Mono (Coeff (- 3)) 2] = Inr (Coeff 0)"
  by code_simp

text \<open>
  Claim C8. \<^verbatim>\<open>PolyOwnMonos\<close> and \<^verbatim>\<open>PolyCloneMonos\<close> return the zero polynomial, without
  error, whenever the count is 0 or the array is the null pointer.
\<close>

theorem C8_empty_ingestion:
  "count = 0 \<or> monos = None \<Longrightarrow>
     PolyOwnMonos count monos = Inr (Coeff 0) \<and> PolyCloneMonos count monos = Inr (Coeff 0)"
  by (cases "monos")
     (auto simp: PolyOwnMonos_def PolyCloneMonos_def PolyAddMonos_def PolyZero_def
        PolyFromCoeff_def)

theorem C8_empty_ingestion_witness:
  "PolyOwnMonos 0 (Some [Mono (Coeff 7) 1]) = Inr (Coeff 0)
   \<and> PolyCloneMonos 0 (Some [Mono (Coeff 7) 1]) = Inr (Coeff 0)"
  using C8_empty_ingestion [of 0 "Some [Mono (Coeff 7) 1]"] by simp

section \<open>Cloning and equality\<close>

lemma PolyIsEq_for_refl:
  "(\<And>m. m \<in> set arr \<Longrightarrow> PolyIsEq (mono_p m) (mono_p m)) \<Longrightarrow> PolyIsEq_for arr arr"
  by (induction arr) (auto simp: MonoIsEq_eq)

lemma PolyIsEq_refl: "PolyIsEq p p"
  by (induction p rule: Poly_induct) (auto intro: PolyIsEq_for_refl)

text \<open>
  Claim C9. For a canonical \<open>p\<close>, \<^verbatim>\<open>PolyClone\<close> succeeds and its result is equal to \<open>p\<close>
  under \<^verbatim>\<open>PolyIsEq\<close>; the clone is structurally \<open>p\<close> itself, the argument being a value
  that the function only reads.
\<close>

theorem C9_clone_is_equal:
  "canonical p \<Longrightarrow> (\<exists>c. PolyClone p = Inr c \<and> PolyIsEq c p \<and> c = p)"
  by (simp add: PolyClone_id canonical_arrays_ok PolyIsEq_refl)

theorem C9_clone_is_equal_witness:
  "canonical (Terms [Mono (Coeff 2) 0, Mono (Terms [Mono (Coeff 5) 1]) 3])
   \<and> (\<exists>c. PolyClone (Terms [Mono (Coeff 2) 0, Mono (Terms [Mono (Coeff 5) 1]) 3]) = Inr c
         \<and> PolyIsEq c (Terms [Mono (Coeff 2) 0, Mono (Terms [Mono (Coeff 5) 1]) 3])
         \<and> c = Terms [Mono (Coeff 2) 0, Mono (Terms [Mono (Coeff 5) 1]) 3])"
proof -
  have h: "canonical (Terms [Mono (Coeff 2) 0, Mono (Terms [Mono (Coeff 5) 1]) 3])"
    by code_simp
  from C9_clone_is_equal [OF h] show ?thesis using h by simp
qed

section \<open>Additive inverse\<close>

lemma while_cancel:
  "list_all2 (\<lambda>m n. mono_exp n = mono_exp m \<and> PolyAdd (mono_p m) (mono_p n) = Inr (Coeff 0))
      arr narr
    \<Longrightarrow> PolyAddTwoNonCoeffs_while arr narr acc = Inr ([], [], acc)"
  by (induction arr narr arbitrary: acc rule: list_all2_induct)
     (auto simp: MonoAdd.simps MonoGetExp_def PolyIsZero_def PolyIsCoeff_def Poly_coeff_def)

lemma PolyAdd_PolyNeg:
  "canonical p \<Longrightarrow>
     \<exists>n. PolyNeg p = Inr n \<and> PolyIsZero n = PolyIsZero p \<and> PolyAdd p n = Inr (Coeff 0)"
proof (induction p rule: Poly_induct)
  case (Coeff c)
  show ?case
    by (simp add: PolyFromCoeff_def PolyIsZero_def PolyIsCoeff_def Poly_coeff_def
        PolyAddTwoCoeffs_def)
next
  case (Terms arr)
  let ?R = "\<lambda>m n. mono_exp n = mono_exp m \<and> PolyAdd (mono_p m) (mono_p n) = Inr (Coeff 0)"
  have "\<exists>n. MonoNeg m = Inr n \<and> ?R m n" if "m \<in> set arr" for m
  proof -
    have c: "canonical (mono_p m)" "\<not> PolyIsZero (mono_p m)"
      using Terms.prems that by (auto simp: canonical_mono_eq)
    from Terms.IH [OF that c(1)] obtain np where
      np: "PolyNeg (mono_p m) = Inr np" "PolyIsZero np = PolyIsZero (mono_p m)"
        "PolyAdd (mono_p m) np = Inr (Coeff 0)" by auto
    then show ?thesis using c(2) by (simp add: MonoNeg_eq MonoFromPoly_def)
  qed
  then obtain narr where narr: "mapM MonoNeg arr = Inr narr" "list_all2 ?R arr narr"
    using mapM_list_all2 [of arr MonoNeg ?R] by auto
  have ne: "arr \<noteq> []" "narr \<noteq> []" "length narr = length arr"
    using Terms.prems narr(2) by (auto dest: list_all2_lengthD)
  have neg: "PolyNeg (Terms arr) = Inr (Terms narr)"
    using narr(1) ne by (simp add: PolyFromSizeAndArray_def)
  have "PolyAdd (Terms arr) (Terms narr) = Inr (Coeff 0)"
    by (simp add: while_cancel [OF narr(2)] CopyWhatsLeft_def TrimAndInterpretMonoArr_def
        PolyZero_def PolyFromCoeff_def)
  with neg show ?case by (simp add: PolyIsZero_def PolyIsCoeff_def)
qed

text \<open>
  Claim C3. For every canonical \<open>p\<close>, \<^verbatim>\<open>PolyNeg\<close> succeeds and \<^verbatim>\<open>PolyAdd\<close> of \<open>p\<close> and its
  negation is the constant 0.
\<close>

theorem C3_add_neg_is_zero:
  "canonical p \<Longrightarrow> (\<exists>n. PolyNeg p = Inr n \<and> PolyAdd p n = Inr (Coeff 0))"
  using PolyAdd_PolyNeg [of p] by auto

theorem C3_add_neg_is_zero_witness:
  "canonical (Terms [Mono (Coeff 2) 0, Mono (Terms [Mono (Coeff 5) 1]) 3])
   \<and> (\<exists>n. PolyNeg (Terms [Mono (Coeff 2) 0, Mono (Terms [Mono (Coeff 5) 1]) 3]) = Inr n
         \<and> PolyAdd (Terms [Mono (Coeff 2) 0, Mono (Terms [Mono (Coeff 5) 1]) 3]) n
             = Inr (Coeff 0))"
proof -
  have h: "canonical (Terms [Mono (Coeff 2) 0, Mono (Terms [Mono (Coeff 5) 1]) 3])"
    by code_simp
  from C3_add_neg_is_zero [OF h] show ?thesis using h by simp
qed

section \<open>Degree by a variable\<close>

lemma fold_max_ge: "(a :: nat) \<le> fold max xs a"
  by (induction xs arbitrary: a) (auto intro: order_trans [OF max.cobounded2])

lemma fold_max_mem: "x \<in> set xs \<Longrightarrow> (x :: nat) \<le> fold max xs a"
proof (induction xs arbitrary: a)
  case Nil
  then show ?case by simp
next
  case (Cons y ys)
  show ?case
  proof (cases "x = y")
    case True
    have "x \<le> max y a" using True by simp
    also have "\<dots> \<le> fold max ys (max y a)" by (rule fold_max_ge)
    finally show ?thesis by simp
  next
    case False
    then show ?thesis using Cons by simp
  qed
qed

lemma nesting_mono_le: "m \<in> set arr \<Longrightarrow> nesting (mono_p m) < nesting (Terms arr)"
  using fold_max_mem [of "nesting (mono_p m)" "map (\<lambda>m. nesting (mono_p m)) arr" 0]
  by (auto simp: less_Suc_eq_le)

lemma max_for_all_zero:
  "(\<And>m. m \<in> set arr \<Longrightarrow> f m = Inr 0) \<Longrightarrow>
     max_for f arr a = Inr (if sint a < 0 \<and> arr \<noteq> [] then 0 else a)"
  by (induction arr arbitrary: a) auto

lemma PolyDegBy_absent:
  "canonical p \<Longrightarrow> \<not> PolyIsZero p \<Longrightarrow> nesting p \<le> v \<Longrightarrow> PolyDegBy p v = Inr 0"
proof (induction p arbitrary: v rule: Poly_induct)
  case (Coeff c)
  then show ?case by simp
next
  case (Terms arr)
  have v: "v \<noteq> 0" using Terms.prems by auto
  have "PolyDegBy (mono_p m) (v - 1) = Inr 0" if "m \<in> set arr" for m
  proof (rule Terms.IH [OF that])
    show "canonical (mono_p m)" "\<not> PolyIsZero (mono_p m)"
      using Terms.prems(1) that by (auto simp: canonical_mono_eq)
    show "nesting (mono_p m) \<le> v - 1"
      using nesting_mono_le [OF that] Terms.prems(3) by simp
  qed
  then have "max_for (\<lambda>m. PolyDegBy (mono_p m) (v - 1)) arr (- 1)
      = Inr (if sint (- 1 :: poly_exp_t) < 0 \<and> arr \<noteq> [] then 0 else - 1)"
    by (rule max_for_all_zero)
  then show ?case using v Terms.prems(1) by simp
qed

text \<open>
  Claim C4, as stated: for a canonical non-constant \<open>p\<close> and a variable index beyond
  its nesting, \<^verbatim>\<open>PolyDegBy\<close> returns \<open>-1\<close>. It fails for \<open>p = x\<^sub>0\<close> and index 2: the
  result is 0.
\<close>

theorem C4_counterexample:
  "canonical (Terms [Mono (Coeff 1) 1]) \<and> \<not> PolyIsCoeff (Terms [Mono (Coeff 1) 1])
   \<and> nesting (Terms [Mono (Coeff 1) 1]) < 2
   \<and> PolyDegBy (Terms [Mono (Coeff 1) 1]) 2 = Inr 0
   \<and> PolyDegBy (Terms [Mono (Coeff 1) 1]) 2 \<noteq> Inr (- 1)"
  by code_simp

text \<open>
  Claim C4, amended: for a canonical non-constant \<open>p\<close> and a variable index at or
  beyond the number of variables \<open>p\<close> is nested over, \<^verbatim>\<open>PolyDegBy\<close> returns 0, and never
  an error.
\<close>

theorem C4_absent_variable_degree_zero:
  "canonical p \<Longrightarrow> \<not> PolyIsCoeff p \<Longrightarrow> nesting p \<le> var_idx \<Longrightarrow> PolyDegBy p var_idx = Inr 0"
  using PolyDegBy_absent [of p var_idx] by (simp add: PolyIsZero_def)

theorem C4_absent_variable_degree_zero_witness:
  "canonical (Terms [Mono (Coeff 2) 0, Mono (Terms [Mono (Coeff 5) 1]) 3])
   \<and> \<not> PolyIsCoeff (Terms [Mono (Coeff 2) 0, Mono (Terms [Mono (Coeff 5) 1]) 3])
   \<and> nesting (Terms [Mono (Coeff 2) 0, Mono (Terms [Mono (Coeff 5) 1]) 3]) \<le> 2
   \<and> PolyDegBy (Terms [Mono (Coeff 2) 0, Mono (Terms [Mono (Coeff 5) 1]) 3]) 2 = Inr 0"
proof -
  have h: "canonical (Terms [Mono (Coeff 2) 0, Mono (Terms [Mono (Coeff 5) 1]) 3])"
    "\<not> PolyIsCoeff (Terms [Mono (Coeff 2) 0, Mono (Terms [Mono (Coeff 5) 1]) 3])"
    "nesting (Terms [Mono (Coeff 2) 0, Mono (Terms [Mono (Coeff 5) 1]) 3]) \<le> 2"
    by code_simp+
  from C4_absent_variable_degree_zero [OF h] show ?thesis using h by simp
qed

section \<open>Exponents of products\<close>

text \<open>
  Claim C5, as stated: an exponent sum beyond \<open>2\<^sup>3\<^sup>1 - 1\<close> is a construction error. It
  fails for \<open>x\<^sup>2\<^sup>1\<^sup>4\<^sup>7\<^sup>4\<^sup>8\<^sup>3\<^sup>6\<^sup>4\<^sup>7 \<cdot> x\<close>: \<^verbatim>\<open>PolyMul\<close> returns a polynomial whose exponent
  is the wrapped sum \<open>-2\<^sup>3\<^sup>1\<close>.
\<close>

theorem C5_counterexample:
  "2147483647 < sint (2147483647 :: poly_exp_t) + sint (1 :: poly_exp_t)
   \<and> PolyMul (Terms [Mono (Coeff 1) 2147483647]) (Terms [Mono (Coeff 1) 1])
       = Inr (Terms [Mono (Coeff 1) (- 2147483648)])"
  by code_simp

text \<open>
  Claim C5, amended: in the non-constant times non-constant case of \<^verbatim>\<open>PolyMul\<close>, when the
  coefficients of every monomial \<open>m\<close> of \<open>p\<close> and every monomial \<open>n\<close> of \<open>q\<close> can be multiplied
  (as constants always can), \<^verbatim>\<open>MonoMul\<close> returns a product monomial for every such pair,
  whatever the two exponents are: no exponent is checked against the bound \<open>2\<^sup>3\<^sup>1 - 1\<close> and
  no exponent raises an error. The coefficient of the product is the product of the
  coefficients and its exponent is the 32-bit two's-complement sum of the two exponents,
  which is their exact sum whenever the exact sum of two non-negative exponents is at most
  \<open>2\<^sup>3\<^sup>1 - 1\<close>. \<^verbatim>\<open>PolyMul\<close> hands exactly these product monomials, one for every pair, in
  the order of the two loops, to \<^verbatim>\<open>PolyAddMonos\<close> and returns what \<^verbatim>\<open>PolyAddMonos\<close> returns.
\<close>

theorem C5_product_exponents:
  assumes "\<forall>m \<in> set arr_p. \<forall>n \<in> set arr_q. \<exists>c. PolyMul (mono_p m) (mono_p n) = Inr c"
  shows "(\<forall>m \<in> set arr_p. \<forall>n \<in> set arr_q. \<exists>r.
            MonoMul m n = Inr r
            \<and> PolyMul (mono_p m) (mono_p n) = Inr (mono_p r)
            \<and> mono_exp r = mono_exp m + mono_exp n
            \<and> (0 \<le> sint (mono_exp m) \<and> 0 \<le> sint (mono_exp n)
                 \<and> sint (mono_exp m) + sint (mono_exp n) \<le> 2147483647
               \<longrightarrow> sint (mono_exp r) = sint (mono_exp m) + sint (mono_exp n)))
       \<and> (\<exists>prods.
            PolyMul (Terms arr_p) (Terms arr_q) = PolyAddMonos (length prods) prods
            \<and> map (\<lambda>r. Inr r) prods = concat (map (\<lambda>m. map (\<lambda>n. MonoMul m n) arr_q) arr_p)
            \<and> map mono_exp prods
                = concat (map (\<lambda>m. map (\<lambda>n. mono_exp m + mono_exp n) arr_q) arr_p))"
proof (intro conjI ballI)
  have mm: "\<exists>r. MonoMul m n = Inr r \<and> PolyMul (mono_p m) (mono_p n) = Inr (mono_p r)
      \<and> mono_exp r = mono_exp m + mono_exp n"
    if "m \<in> set arr_p" "n \<in> set arr_q" for m n
  proof -
    from assms that obtain c where "PolyMul (mono_p m) (mono_p n) = Inr c" by blast
    then show ?thesis by (simp add: MonoMul.simps)
  qed
  show "\<exists>r. MonoMul m n = Inr r
            \<and> PolyMul (mono_p m) (mono_p n) = Inr (mono_p r)
            \<and> mono_exp r = mono_exp m + mono_exp n
            \<and> (0 \<le> sint (mono_exp m) \<and> 0 \<le> sint (mono_exp n)
                 \<and> sint (mono_exp m) + sint (mono_exp n) \<le> 2147483647
               \<longrightarrow> sint (mono_exp r) = sint (mono_exp m) + sint (mono_exp n))"
    if "m \<in> set arr_p" "n \<in> set arr_q" for m n
    using mm [OF that] by (auto simp: sint_add_no_overflow)
  have row: "\<exists>row. mapM (\<lambda>n. MonoMul m n) arr_q = Inr row
      \<and> list_all2 (\<lambda>n r. MonoMul m n = Inr r) arr_q row"
    if "m \<in> set arr_p" for m
    using mm [OF that]
      mapM_list_all2 [of arr_q "\<lambda>n. MonoMul m n" "\<lambda>n r. MonoMul m n = Inr r"]
    by blast
  have "\<exists>rows. mapM (\<lambda>m. mapM (\<lambda>n. MonoMul m n) arr_q) arr_p = Inr rows
      \<and> list_all2 (\<lambda>m row. list_all2 (\<lambda>n r. MonoMul m n = Inr r) arr_q row) arr_p rows"
    using row
      mapM_list_all2 [of arr_p "\<lambda>m. mapM (\<lambda>n. MonoMul m n) arr_q"
        "\<lambda>m row. list_all2 (\<lambda>n r. MonoMul m n = Inr r) arr_q row"]
    by blast
  then obtain rows where rows: "mapM (\<lambda>m. mapM (\<lambda>n. MonoMul m n) arr_q) arr_p = Inr rows"
    and rel: "list_all2 (\<lambda>m row. list_all2 (\<lambda>n r. MonoMul m n = Inr r) arr_q row) arr_p rows"
    by blast
  have inner: "map (\<lambda>r. Inr r) row = map (\<lambda>n. MonoMul m n) arr_q"
    if "list_all2 (\<lambda>n r. MonoMul m n = Inr r) arr_q row" for m row
    using that by (induction rule: list_all2_induct) simp_all
  have outer: "map (map (\<lambda>r. Inr r)) rows = map (\<lambda>m. map (\<lambda>n. MonoMul m n) arr_q) arr_p"
    using rel by (induction rule: list_all2_induct) (simp_all add: inner)
  have inner_e: "map mono_exp row = map (\<lambda>n. mono_exp m + mono_exp n) arr_q"
    if "list_all2 (\<lambda>n r. MonoMul m n = Inr r) arr_q row" for m row
    using that by (induction rule: list_all2_induct) (auto simp: MonoMul.simps elim!: bnd_InrE)
  have outer_e: "map (map mono_exp) rows
      = map (\<lambda>m. map (\<lambda>n. mono_exp m + mono_exp n) arr_q) arr_p"
    using rel by (induction rule: list_all2_induct) (simp_all add: inner_e)
  show "\<exists>prods.
            PolyMul (Terms arr_p) (Terms arr_q) = PolyAddMonos (length prods) prods
            \<and> map (\<lambda>r. Inr r) prods = concat (map (\<lambda>m. map (\<lambda>n. MonoMul m n) arr_q) arr_p)
            \<and> map mono_exp prods
                = concat (map (\<lambda>m. map (\<lambda>n. mono_exp m + mono_exp n) arr_q) arr_p)"
  proof (intro exI [of _ "concat rows"] conjI)
    show "PolyMul (Terms arr_p) (Terms arr_q) = PolyAddMonos (length (concat rows)) (concat rows)"
      using rows by simp
    show "map (\<lambda>r. Inr r) (concat rows)
        = concat (map (\<lambda>m. map (\<lambda>n. MonoMul m n) arr_q) arr_p)"
      using outer by (simp add: map_concat)
    show "map mono_exp (concat rows)
        = concat (map (\<lambda>m. map (\<lambda>n. mono_exp m + mono_exp n) arr_q) arr_p)"
      using outer_e by (simp add: map_concat)
  qed
qed

theorem C5_product_exponents_witness:
  "PolyMul (Coeff 3) (Coeff 5) = Inr (Coeff 15)
   \<and> PolyMul (Coeff 3) (Coeff 1) = Inr (Coeff 3)
   \<and> PolyMul (Coeff 1) (Coeff 5) = Inr (Coeff 5)
   \<and> PolyMul (Coeff 1) (Coeff 1) = Inr (Coeff 1)
   \<and> MonoMul (Mono (Coeff 1) 2147483647) (Mono (Coeff 5) 2)
       = Inr (Mono (Coeff 5) (- 2147483647))
   \<and> (\<exists>prods.
        PolyMul (Terms [Mono (Coeff 3) 1, Mono (Coeff 1) 2147483647])
                (Terms [Mono (Coeff 5) 2, Mono (Coeff 1) 3])
          = PolyAddMonos (length prods) prods
        \<and> map mono_exp prods = [3, 4, - 2147483647, - 2147483646])"
proof -
  have c: "PolyMul (Coeff 3) (Coeff 5) = Inr (Coeff 15)"
    "PolyMul (Coeff 3) (Coeff 1) = Inr (Coeff 3)"
    "PolyMul (Coeff 1) (Coeff 5) = Inr (Coeff 5)"
    "PolyMul (Coeff 1) (Coeff 1) = Inr (Coeff 1)"
    by (simp_all add: PolyFromCoeff_def)
  have h: "\<forall>m \<in> set [Mono (Coeff 3) 1, Mono (Coeff 1) 2147483647].
      \<forall>n \<in> set [Mono (Coeff 5) 2, Mono (Coeff 1) 3].
        \<exists>c. PolyMul (mono_p m) (mono_p n) = Inr c"
    using c by simp
  have m: "MonoMul (Mono (Coeff 1) 2147483647) (Mono (Coeff 5) 2)
       = Inr (Mono (Coeff 5) (- 2147483647))"
    by code_simp
  from C5_product_exponents [OF h] obtain prods where
    pr: "PolyMul (Terms [Mono (Coeff 3) 1, Mono (Coeff 1) 2147483647])
                 (Terms [Mono (Coeff 5) 2, Mono (Coeff 1) 3])
          = PolyAddMonos (length prods) prods"
    and e: "map mono_exp prods
          = concat (map (\<lambda>m. map (\<lambda>n. mono_exp m + mono_exp n)
                [Mono (Coeff 5) 2, Mono (Coeff 1) 3])
              [Mono (Coeff 3) 1, Mono (Coeff 1) 2147483647])"
    by blast
  from e have e': "map mono_exp prods = [3, 4, - 2147483647, - 2147483646]" by simp
  show ?thesis by (intro conjI exI [of _ prods]) (rule c m pr e')+
qed

section \<open>Evaluation at zero\<close>

lemma PowerOf_0: "PowerOf x 0 = Inr 1"
  by (subst PowerOf.simps) simp

lemma PowerOf_total: "0 \<le> sint n \<Longrightarrow> \<exists>r. PowerOf x n = Inr r"
proof (induction x n rule: PowerOf.induct)
  case (1 x n)
  show ?case
  proof (cases "n = 0 \<or> n = 1")
    case True
    then show ?thesis by (subst PowerOf.simps) auto
  next
    case False
    then have pos: "0 < sint n" using "1.prems" by (simp add: sint_pos_if)
    show ?thesis
    proof (cases "n AND 1 \<noteq> 0")
      case True
      have "0 \<le> sint (int_div (n - 1) 2)" using pos by (simp add: sint_int_div_2 sint_minus_1)
      from "1.IH"(1) [OF _ _ _ True this] False "1.prems" obtain r where
        "PowerOf (x * x) (int_div (n - 1) 2) = Inr r" by auto
      then show ?thesis using False True "1.prems" by (subst PowerOf.simps) simp
    next
      case F2: False
      have "0 \<le> sint (int_div n 2)" using pos by (simp add: sint_int_div_2)
      from "1.IH"(2) [OF _ _ _ F2 this] False "1.prems" obtain r where
        "PowerOf (x * x) (int_div n 2) = Inr r" by auto
      then show ?thesis using False F2 "1.prems" by (subst PowerOf.simps) simp
    qed
  qed
qed

lemma sint_ge_2: "0 < sint (n :: poly_exp_t) \<Longrightarrow> n \<noteq> 1 \<Longrightarrow> 2 \<le> sint n"
proof -
  assume a: "0 < sint n" "n \<noteq> 1"
  have "sint n \<noteq> sint (1 :: poly_exp_t)" using a(2) signed_word_eqI by blast
  then show ?thesis using a(1) by simp
qed

lemma PowerOf_zero_base: "x = 0 \<Longrightarrow> 0 < sint n \<Longrightarrow> PowerOf x n = Inr 0"
proof (induction x n rule: PowerOf.induct)
  case (1 x n)
  have n0: "n \<noteq> 0" using "1.prems" by auto
  show ?case
  proof (cases "n = 1")
    case True
    then show ?thesis using "1.prems" by (subst PowerOf.simps) simp
  next
    case False
    have ge: "2 \<le> sint n" using "1.prems" False by (simp add: sint_ge_2)
    show ?thesis
    proof (cases "n AND 1 \<noteq> 0")
      case True
      have "0 \<le> sint (int_div (n - 1) 2)" using ge by (simp add: sint_int_div_2 sint_minus_1)
      then obtain r where "PowerOf (x * x) (int_div (n - 1) 2) = Inr r"
        using PowerOf_total by blast
      then show ?thesis using False True ge n0 "1.prems"(1) by (subst PowerOf.simps) simp
    next
      case F2: False
      have "0 < sint (int_div n 2)" using ge by (simp add: sint_int_div_2)
      from "1.IH"(2) [OF _ n0 False F2 _ this] ge "1.prems"(1)
      have "PowerOf (x * x) (int_div n 2) = Inr 0" by simp
      then show ?thesis using False F2 ge n0 by (subst PowerOf.simps) simp
    qed
  qed
qed

lemma PolyMul_zero: "PolyMul p (Coeff 0) = Inr (Coeff 0)"
  by (cases p) (simp_all add: PolyFromCoeff_def PolyIsZero_def PolyIsCoeff_def Poly_coeff_def PolyZero_def)

lemma MonoSort_sorted:
  "sorted_wrt (\<lambda>m n. sint (mono_exp m) < sint (mono_exp n)) arr \<Longrightarrow> MonoSort arr = arr"
proof -
  assume "sorted_wrt (\<lambda>m n. sint (mono_exp m) < sint (mono_exp n)) arr"
  then have "sorted_wrt (\<lambda>m n. sint (mono_exp m) \<le> sint (mono_exp n)) arr"
    by (rule sorted_wrt_mono_rel [rotated]) simp
  then have "sorted (map (\<lambda>m. sint (mono_exp m)) arr)"
    by (simp add: sorted_wrt_map)
  then show ?thesis unfolding MonoSort_def by (rule sort_key_id_if_sorted)
qed

lemma PolyAddMonos_for_distinct:
  "sorted_wrt (\<lambda>m n. sint (mono_exp m) < sint (mono_exp n)) (cur # rest) \<Longrightarrow>
   \<forall>m \<in> set (cur # rest). \<not> PolyIsZero (mono_p m) \<and> arrays_ok (mono_p m) \<Longrightarrow>
   PolyAddMonos_for kept cur rest = Inr (kept @ cur # rest)"
proof (induction rest arbitrary: kept cur)
  case Nil
  show ?case by simp
next
  case (Cons m rest)
  have ne: "MonoGetExp cur \<noteq> MonoGetExp m" using Cons.prems(1) by (auto simp: MonoGetExp_def)
  have cl: "MonoClone m = Inr m" using Cons.prems(2) by (simp add: MonoClone_eq PolyClone_id)
  have "PolyAddMonos_for (kept @ [cur]) m rest = Inr ((kept @ [cur]) @ m # rest)"
    using Cons.prems by (intro Cons.IH) auto
  then show ?case using ne cl Cons.prems(2) by simp
qed

lemma Trim_full:
  assumes "arr \<noteq> []"
    and "length arr = 1 \<Longrightarrow> \<not> PolyIsZero (mono_p (arr ! 0))
           \<and> \<not> (mono_exp (arr ! 0) = 0 \<and> PolyIsCoeff (mono_p (arr ! 0)))"
  shows "TrimAndInterpretMonoArr arr (length arr) (length arr) = Inr (Terms arr)"
  using assms
  by (auto simp: TrimAndInterpretMonoArr_def PolyFromSizeAndArray_def MonoGetExp_def)

lemma PolyAddMonos_canonical:
  assumes "canonical (Terms arr)"
  shows "PolyAddMonos (length arr) arr = Inr (Terms arr)"
proof -
  from assms obtain cur rest where arr: "arr = cur # rest" by (cases arr) auto
  have s: "sorted_wrt (\<lambda>m n. sint (mono_exp m) < sint (mono_exp n)) arr" using assms by simp
  have z: "\<forall>m \<in> set arr. \<not> PolyIsZero (mono_p m) \<and> arrays_ok (mono_p m)"
    using assms by (auto simp: canonical_mono_eq canonical_arrays_ok)
  have f: "PolyAddMonos_for [] cur rest = Inr arr"
    using PolyAddMonos_for_distinct [of cur rest "[]"] s z unfolding arr by simp
  have "length arr = 1 \<Longrightarrow> arr = [hd arr]" by (cases arr) auto
  then have t: "TrimAndInterpretMonoArr arr (length arr) (length arr) = Inr (Terms arr)"
    using assms z by (intro Trim_full) (auto simp: hd_conv_nth)
  have "MonoSort (take (length arr) arr) = cur # rest"
    using MonoSort_sorted [OF s] arr by simp
  then show ?thesis
    unfolding PolyAddMonos_def using f t arr by simp
qed

lemma PolyMul_one: "canonical p \<Longrightarrow> PolyMul p (Coeff 1) = Inr p"
proof (induction p rule: Poly_induct)
  case (Coeff c)
  show ?case by (simp add: PolyFromCoeff_def)
next
  case (Terms arr)
  have "mapM (\<lambda>m. MonoMulCoeff m (Coeff 1)) arr = Inr arr"
  proof (rule mapM_Inr_id)
    fix m assume "m \<in> set arr"
    then have "PolyMul (mono_p m) (Coeff 1) = Inr (mono_p m)"
      using Terms by (auto simp: canonical_mono_eq)
    then show "MonoMulCoeff m (Coeff 1) = Inr m"
      by (simp add: MonoMulCoeff.simps PolyIsCoeff_def)
  qed
  then show ?case
    using PolyAddMonos_canonical [OF Terms.prems]
    by (simp add: PolyIsZero_def PolyIsCoeff_def Poly_coeff_def)
qed

lemma PolyAdd_zero_right: "arrays_ok r \<Longrightarrow> PolyAdd r (Coeff 0) = Inr r"
  by (cases r)
     (simp_all add: PolyAddTwoCoeffs_def PolyFromCoeff_def Poly_coeff_def PolyIsZero_def
        PolyIsCoeff_def PolyClone_id del: PolyClone.simps)

lemma PolyAdd_zero_left: "arrays_ok r \<Longrightarrow> PolyAdd (Coeff 0) r = Inr r"
  by (cases r)
     (simp_all add: PolyAddTwoCoeffs_def PolyFromCoeff_def Poly_coeff_def PolyIsZero_def
        PolyIsCoeff_def PolyClone_id del: PolyClone.simps)

lemma MonoAt_zero_pos: "0 < sint (mono_exp m) \<Longrightarrow> MonoAt m 0 = Inr (Coeff 0)"
  by (simp add: MonoAt_def PowerOf_zero_base PolyFromCoeff_def PolyMul_zero)

lemma PolyAt_for_zero_pos:
  "\<forall>m \<in> set ms. 0 < sint (mono_exp m) \<Longrightarrow> arrays_ok result \<Longrightarrow> PolyAt_for ms 0 result = Inr result"
  by (induction ms) (simp_all add: MonoAt_zero_pos PolyAdd_zero_right)


lemma canonical_tail_pos:
  assumes "canonical (Terms (m # ms))" and "n \<in> set ms"
  shows "0 < sint (mono_exp n)"
proof -
  have "0 \<le> sint (mono_exp m)" using assms(1) by (simp add: canonical_mono_eq)
  moreover have "sint (mono_exp m) < sint (mono_exp n)" using assms by auto
  ultimately show ?thesis by simp
qed

text \<open>
  Claim C10. \<^verbatim>\<open>PowerOf(x, 0)\<close> is 1 for every base, also for 0. For a canonical non-constant
  \<open>p\<close>, \<^verbatim>\<open>PolyAt(p, 0)\<close> is the sum of the coefficients of the exponent-0 monomials of \<open>p\<close>:
  there is at most one such monomial, and the result is its coefficient, or the constant 0
  when there is none; every monomial of higher exponent contributes zero.
\<close>

theorem C10_power_zero_and_at_zero:
  "PowerOf x 0 = Inr 1
   \<and> (canonical (Terms arr) \<longrightarrow>
        length (filter (\<lambda>m. mono_exp m = 0) arr) \<le> 1
        \<and> PolyAt (Terms arr) 0
            = Inr (case filter (\<lambda>m. mono_exp m = 0) arr of [] \<Rightarrow> Coeff 0 | m # ms \<Rightarrow> mono_p m))"
proof (intro conjI impI)
  show "PowerOf x 0 = Inr 1" by (rule PowerOf_0)
next
  assume c: "canonical (Terms arr)"
  then obtain m ms where arr: "arr = m # ms" by (cases arr) auto
  have pos: "\<forall>n \<in> set ms. 0 < sint (mono_exp n)"
    using canonical_tail_pos c arr by blast
  then have f: "filter (\<lambda>m. mono_exp m = 0) ms = []"
    by (auto simp: filter_empty_conv)
  show "length (filter (\<lambda>m. mono_exp m = 0) arr) \<le> 1" using f arr by simp
  have ok: "arrays_ok (mono_p m)" "canonical (mono_p m)"
    using c arr by (auto simp: canonical_mono_eq canonical_arrays_ok)
  show "PolyAt (Terms arr) 0
      = Inr (case filter (\<lambda>m. mono_exp m = 0) arr of [] \<Rightarrow> Coeff 0 | m # ms \<Rightarrow> mono_p m)"
  proof (cases "mono_exp m = 0")
    case True
    have "MonoAt m 0 = Inr (mono_p m)"
      using True ok(2) by (simp add: MonoAt_def PowerOf_0 PolyFromCoeff_def PolyMul_one)
    moreover have "PolyAdd PolyZero (mono_p m) = Inr (mono_p m)"
      using ok(1) by (simp add: PolyZero_def PolyFromCoeff_def PolyAdd_zero_left)
    moreover have "PolyAt_for ms 0 (mono_p m) = Inr (mono_p m)"
      using pos ok(1) by (rule PolyAt_for_zero_pos)
    ultimately show ?thesis using True f arr by (simp add: PolyAt_def)
  next
    case False
    have "0 \<le> sint (mono_exp m)" using c arr by (simp add: canonical_mono_eq)
    then have "0 < sint (mono_exp m)" using False by (simp add: sint_pos_if)
    then have "\<forall>n \<in> set arr. 0 < sint (mono_exp n)" using pos arr by simp
    then have "PolyAt_for arr 0 PolyZero = Inr PolyZero"
      by (rule PolyAt_for_zero_pos) (simp add: PolyZero_def PolyFromCoeff_def)
    then show ?thesis using False f arr by (simp add: PolyAt_def PolyZero_def PolyFromCoeff_def)
  qed
qed

theorem C10_power_zero_and_at_zero_witness:
  "PowerOf 0 0 = Inr 1
   \<and> canonical (Terms [Mono (Terms [Mono (Coeff 4) 1]) 0, Mono (Coeff 2) 1, Mono (Coeff 7) 5])
   \<and> PolyAt (Terms [Mono (Terms [Mono (Coeff 4) 1]) 0, Mono (Coeff 2) 1, Mono (Coeff 7) 5]) 0
       = Inr (Terms [Mono (Coeff 4) 1])"
proof -
  have h: "canonical (Terms [Mono (Terms [Mono (Coeff 4) 1]) 0, Mono (Coeff 2) 1, Mono (Coeff 7) 5])"
    by code_simp
  from C10_power_zero_and_at_zero
    [of 0 "[Mono (Terms [Mono (Coeff 4) 1]) 0, Mono (Coeff 2) 1, Mono (Coeff 7) 5]"]
  show ?thesis using h by simp
qed


section \<open>Well-formedness, exponent bounds and meaning\<close>

definition eval_mono :: "(poly_coeff_t \<Rightarrow> 'a :: comm_ring_1) \<Rightarrow> (nat \<Rightarrow> 'a) \<Rightarrow> nat \<Rightarrow> Mono \<Rightarrow> 'a" where
  "eval_mono h \<rho> d m = eval h \<rho> (Suc d) (mono_p m) * \<rho> d ^ unat (mono_exp m)"

definition eval_monos :: "(poly_coeff_t \<Rightarrow> 'a :: comm_ring_1) \<Rightarrow> (nat \<Rightarrow> 'a) \<Rightarrow> nat \<Rightarrow> Mono list \<Rightarrow> 'a" where
  "eval_monos h \<rho> d arr = sum_list (map (eval_mono h \<rho> d) arr)"

lemma eval_Terms: "eval h \<rho> d (Terms arr) = eval_monos h \<rho> d arr"
  by (simp add: eval_monos_def eval_mono_def [abs_def])

lemma eval_monos_simps [simp]:
  "eval_monos h \<rho> d [] = 0"
  "eval_monos h \<rho> d (m # ms) = eval_mono h \<rho> d m + eval_monos h \<rho> d ms"
  "eval_monos h \<rho> d (ms @ ns) = eval_monos h \<rho> d ms + eval_monos h \<rho> d ns"
  by (simp_all add: eval_monos_def)

lemma ring_hom_add: "ring_hom h \<Longrightarrow> h (a + b) = h a + h b"
  by (simp add: ring_hom_def)

lemma ring_hom_mult: "ring_hom h \<Longrightarrow> h (a * b) = h a * h b"
  by (simp add: ring_hom_def)

lemma ring_hom_one: "ring_hom h \<Longrightarrow> h 1 = 1"
  by (simp add: ring_hom_def)

lemma ring_hom_zero: "ring_hom h \<Longrightarrow> h 0 = 0"
  using ring_hom_add [of h 0 0] by simp

definition mono_ok :: "Mono \<Rightarrow> bool" where
  "mono_ok m = (0 \<le> sint (mono_exp m) \<and> well_formed (mono_p m))"

definition mono_le :: "nat \<Rightarrow> Mono \<Rightarrow> bool" where
  "mono_le B m = (sint (mono_exp m) \<le> int B \<and> exps_le B (mono_p m))"

abbreviation exp_lt :: "Mono \<Rightarrow> Mono \<Rightarrow> bool" where
  "exp_lt m n \<equiv> sint (mono_exp m) < sint (mono_exp n)"

lemma well_formed_Terms:
  "well_formed (Terms arr) =
     (arr \<noteq> [] \<and> (\<forall>m \<in> set arr. mono_ok m) \<and> sorted_wrt exp_lt arr
      \<and> \<not> (length arr = 1 \<and> mono_exp (hd arr) = 0 \<and> PolyIsCoeff (mono_p (hd arr))))"
  by (simp add: mono_ok_def)

lemma exps_le_Terms: "exps_le B (Terms arr) = (\<forall>m \<in> set arr. mono_le B m)"
  by (simp add: mono_le_def)

declare well_formed.simps(2) [simp del] exps_le.simps(2) [simp del] eval.simps(2) [simp del]

lemma well_formed_arrays_ok: "well_formed p \<Longrightarrow> arrays_ok p"
  by (induction p rule: Poly_induct) (auto simp: well_formed_Terms mono_ok_def)

lemma canonical_well_formed: "canonical p \<Longrightarrow> well_formed p"
  by (induction p rule: Poly_induct) (auto simp: well_formed_Terms mono_ok_def canonical_mono_eq)

lemma mono_ok_clone: "mono_ok m \<Longrightarrow> MonoClone m = Inr m"
  by (simp add: MonoClone_eq mono_ok_def PolyClone_id well_formed_arrays_ok)

lemma mapM_clone: "\<forall>m \<in> set ms. mono_ok m \<Longrightarrow> mapM MonoClone ms = Inr ms"
  by (intro mapM_Inr_id) (simp add: mono_ok_clone)

lemma exps_le_mono: "exps_le A p \<Longrightarrow> A \<le> B \<Longrightarrow> exps_le B p"
  by (induction p rule: Poly_induct) (auto simp: exps_le_Terms mono_le_def)

definition add_ok :: "(poly_coeff_t \<Rightarrow> 'a :: comm_ring_1) \<Rightarrow> Poly \<Rightarrow> Poly \<Rightarrow> bool" where
  "add_ok h p q =
     (\<exists>r. PolyAdd p q = Inr r \<and> well_formed r
        \<and> (\<forall>B. exps_le B p \<longrightarrow> exps_le B q \<longrightarrow> exps_le B r)
        \<and> (PolyIsCoeff p \<noteq> PolyIsCoeff q \<longrightarrow> \<not> PolyIsCoeff r)
        \<and> (\<forall>\<rho> d. eval h \<rho> d r = eval h \<rho> d p + eval h \<rho> d q))"

lemma add_ok_Coeff_Coeff: "ring_hom h \<Longrightarrow> add_ok h (Coeff a) (Coeff b)"
  by (simp add: add_ok_def PolyAddTwoCoeffs_def PolyFromCoeff_def Poly_coeff_def PolyIsCoeff_def
      ring_hom_add)

lemma PolyIsCoeff_simps [simp]: "PolyIsCoeff (Coeff c)" "\<not> PolyIsCoeff (Terms arr)"
  by (simp_all add: PolyIsCoeff_def)

lemma PolyIsZero_simps [simp]: "PolyIsZero (Coeff c) = (c = 0)" "\<not> PolyIsZero (Terms arr)"
  by (simp_all add: PolyIsZero_def Poly_coeff_def)

lemma PolyIsZero_iff: "PolyIsZero p = (p = Coeff 0)"
  by (cases p) simp_all

lemmas basic_defs [simp] = PolyZero_def PolyFromCoeff_def MonoGetExp_def

lemma PolyFromSizeAndArray_full [simp]:
  "arr \<noteq> [] \<Longrightarrow> PolyFromSizeAndArray (length arr) arr = Inr (Terms arr)"
  by (simp add: PolyFromSizeAndArray_def)

lemma PolyFromSizeAndArray_Cons [simp]:
  "PolyFromSizeAndArray (Suc (length ms)) (m # ms) = Inr (Terms (m # ms))"
  by (simp add: PolyFromSizeAndArray_def)

lemma MonoFromPoly_zero_exp [simp]: "MonoFromPoly p 0 = Inr (Mono p 0)"
  by (simp add: MonoFromPoly_def)

lemma eval_mono_Mono [simp]:
  "eval_mono h \<rho> d (Mono p e) = eval h \<rho> (Suc d) p * \<rho> d ^ unat e"
  by (simp add: eval_mono_def)

lemma PolyAdd_Coeff_Terms: "PolyAdd (Coeff b) (Terms arr) = PolyAdd (Terms arr) (Coeff b)"
  by simp

lemma add_ok_Terms_Coeff:
  assumes h: "ring_hom h" and wf: "well_formed (Terms arr)"
    and IH: "\<And>m. m \<in> set arr \<Longrightarrow> add_ok h (mono_p m) (Coeff b)"
  shows "add_ok h (Terms arr) (Coeff b)"
proof (cases "b = 0")
  case True
  have "PolyClone (Terms arr) = Inr (Terms arr)"
    using wf by (intro PolyClone_id well_formed_arrays_ok)
  then have "PolyAdd (Terms arr) (Coeff b) = Inr (Terms arr)"
    using True by (simp del: PolyClone.simps)
  then show ?thesis using wf True h by (simp add: add_ok_def ring_hom_zero)
next
  case False
  obtain m ms where arr: "arr = m # ms"
    using wf by (cases arr) (auto simp: well_formed_Terms)
  have oks: "mono_ok m" "\<forall>n \<in> set ms. mono_ok n" "sorted_wrt exp_lt ms"
    "\<forall>n \<in> set ms. exp_lt m n"
    using wf arr by (auto simp: well_formed_Terms)
  have cl: "mapM MonoClone ms = Inr ms" "mapM MonoClone arr = Inr arr"
    using oks arr by (simp_all add: mapM_clone del: mapM.simps)
  show ?thesis
  proof (cases "mono_exp m = 0")
    case True
    from IH [of m] arr obtain r0 where r0: "PolyAdd (mono_p m) (Coeff b) = Inr r0"
      "well_formed r0" "\<And>B. exps_le B (mono_p m) \<Longrightarrow> exps_le B r0"
      "\<not> PolyIsCoeff (mono_p m) \<Longrightarrow> \<not> PolyIsCoeff r0"
      "\<And>\<rho> d. eval h \<rho> d r0 = eval h \<rho> d (mono_p m) + h b"
      unfolding add_ok_def by auto
    have single: "ms = [] \<Longrightarrow> \<not> PolyIsCoeff (mono_p m)"
      using wf arr True by (simp add: well_formed_Terms)
    have pos: "\<forall>n \<in> set ms. 0 < sint (mono_exp n)"
      using oks(4) True by simp
    have em: "eval_mono h \<rho> d m = eval h \<rho> (Suc d) (mono_p m)" for \<rho> d
      using True by (simp add: eval_mono_def)
    show ?thesis
    proof (cases "PolyIsZero r0")
      case z: True
      then have ne: "ms \<noteq> []" using single r0(4) by (auto simp: PolyIsZero_iff)
      have res: "PolyAdd (Terms arr) (Coeff b) = Inr (Terms ms)"
        using False arr True r0(1) z cl ne by simp
      have "mono_exp (hd ms) \<noteq> 0" using pos ne by (cases ms) auto
      then have wfr: "well_formed (Terms ms)"
        using ne oks by (simp add: well_formed_Terms)
      have le: "exps_le B (Terms arr) \<Longrightarrow> exps_le B (Terms ms)" for B
        using arr by (simp add: exps_le_Terms)
      have "eval h \<rho> d (Terms ms) = eval h \<rho> d (Terms arr) + h b" for \<rho> d
        using r0(5) [of \<rho> "Suc d"] z h arr em
        by (simp add: eval_Terms PolyIsZero_iff ring_hom_zero algebra_simps)
      then show ?thesis using res wfr le by (simp add: add_ok_def)
    next
      case nz: False
      let ?r = "Terms (Mono r0 0 # ms)"
      have res: "PolyAdd (Terms arr) (Coeff b) = Inr ?r"
        using False arr True r0(1) nz cl by simp
      have wfr: "well_formed ?r"
        using oks r0(2,4) single True by (auto simp: well_formed_Terms mono_ok_def)
      have le: "exps_le B (Terms arr) \<Longrightarrow> exps_le B ?r" for B
        using arr r0(3) by (auto simp: exps_le_Terms mono_le_def)
      have "eval h \<rho> d ?r = eval h \<rho> d (Terms arr) + h b" for \<rho> d
        using r0(5) [of \<rho> "Suc d"] arr em by (simp add: eval_Terms algebra_simps)
      then show ?thesis using res wfr le by (simp add: add_ok_def)
    qed
  next
    case False
    let ?r = "Terms (Mono (Coeff b) 0 # arr)"
    have res: "PolyAdd (Terms arr) (Coeff b) = Inr ?r"
      using \<open>b \<noteq> 0\<close> arr False cl by (simp add: PolyAddCoeffIfPDoesntHaveConst_def)
    have "0 < sint (mono_exp m)" using oks(1) False by (simp add: mono_ok_def sint_pos_if)
    then have "\<forall>n \<in> set arr. exp_lt (Mono (Coeff b) 0) n" using oks(4) arr by auto
    then have wfr: "well_formed ?r"
      using wf arr by (auto simp: well_formed_Terms mono_ok_def)
    have le: "exps_le B (Terms arr) \<Longrightarrow> exps_le B ?r" for B
      by (auto simp: exps_le_Terms mono_le_def)
    have "eval h \<rho> d ?r = eval h \<rho> d (Terms arr) + h b" for \<rho> d
      by (simp add: eval_Terms algebra_simps)
    then show ?thesis using res wfr le by (simp add: add_ok_def)
  qed
qed

lemma add_ok_commute:
  "PolyAdd q p = PolyAdd p q \<Longrightarrow> add_ok h p q \<Longrightarrow> add_ok h q p"
  unfolding add_ok_def by (auto simp: add.commute)

section \<open>Addition: success, well-formedness and meaning\<close>

definition merged :: "Mono list \<Rightarrow> Mono list \<Rightarrow> Mono list \<Rightarrow> error + Mono list" where
  "merged ps qs acc =
     bnd (PolyAddTwoNonCoeffs_while ps qs acc) (\<lambda>(rp, rq, na). CopyWhatsLeft rp rq na)"

lemma merged_Nil_left: "merged [] qs acc = bnd (mapM MonoClone qs) (\<lambda>cs. Inr (acc @ cs))"
  by (simp add: merged_def CopyWhatsLeft_def)

lemma merged_Nil_right: "merged ps [] acc = bnd (mapM MonoClone ps) (\<lambda>cs. Inr (acc @ cs))"
  by (cases ps) (simp_all add: merged_def CopyWhatsLeft_def)

lemma merged_Cons:
  "merged (m # ps) (n # qs) acc =
     (if mono_exp m = mono_exp n
      then bnd (MonoAdd m n) (\<lambda>new_mono.
           merged ps qs (if \<not> PolyIsZero (mono_p new_mono) then acc @ [new_mono] else acc))
      else if exp_lt n m
      then bnd (MonoClone n) (\<lambda>c. merged (m # ps) qs (acc @ [c]))
      else bnd (MonoClone m) (\<lambda>c. merged ps (n # qs) (acc @ [c])))"
  by (simp add: merged_def bnd_def split: sum.splits)

lemma PolyAdd_Terms_Terms:
  "PolyAdd (Terms arr_p) (Terms arr_q) =
     bnd (merged arr_p arr_q []) (\<lambda>new_array.
     TrimAndInterpretMonoArr new_array (length new_array) (length arr_p + length arr_q))"
  by (simp add: merged_def bnd_def split: sum.splits)

definition merge_post ::
  "(poly_coeff_t \<Rightarrow> 'a :: comm_ring_1) \<Rightarrow> Mono list \<Rightarrow> Mono list \<Rightarrow> Mono list \<Rightarrow> bool" where
  "merge_post h ps qs res =
     ((\<forall>x \<in> set res. mono_ok x) \<and> sorted_wrt exp_lt res
      \<and> (\<forall>x \<in> set res. \<exists>y \<in> set ps \<union> set qs. mono_exp x = mono_exp y)
      \<and> (\<forall>B. (\<forall>m \<in> set ps. mono_le B m) \<longrightarrow> (\<forall>n \<in> set qs. mono_le B n)
             \<longrightarrow> (\<forall>x \<in> set res. mono_le B x))
      \<and> (\<forall>\<rho> d. eval_monos h \<rho> d res = eval_monos h \<rho> d ps + eval_monos h \<rho> d qs))"

lemma merge_post_copy_right:
  "\<forall>n \<in> set qs. mono_ok n \<Longrightarrow> sorted_wrt exp_lt qs \<Longrightarrow> merge_post h [] qs qs"
  by (auto simp: merge_post_def)

lemma merge_post_copy_left:
  "\<forall>n \<in> set ps. mono_ok n \<Longrightarrow> sorted_wrt exp_lt ps \<Longrightarrow> merge_post h ps [] ps"
  by (auto simp: merge_post_def)

lemma sorted_cons_from:
  assumes "sorted_wrt exp_lt res"
    and "\<forall>x \<in> set res. \<exists>y \<in> S. mono_exp x = mono_exp y"
    and "\<forall>y \<in> S. sint e < sint (mono_exp y)"
  shows "sorted_wrt exp_lt (Mono s e # res)"
proof -
  have "sint e < sint (mono_exp x)" if "x \<in> set res" for x
    using assms(2,3) that by metis
  then show ?thesis using assms(1) by simp
qed

lemma merge_postD:
  assumes "merge_post h ps qs res"
  shows "\<forall>x \<in> set res. mono_ok x" and "sorted_wrt exp_lt res"
    and "\<forall>x \<in> set res. \<exists>y \<in> set ps \<union> set qs. mono_exp x = mono_exp y"
    and "\<And>B. \<forall>m \<in> set ps. mono_le B m \<Longrightarrow> \<forall>n \<in> set qs. mono_le B n \<Longrightarrow>
           \<forall>x \<in> set res. mono_le B x"
    and "\<And>\<rho> d. eval_monos h \<rho> d res = eval_monos h \<rho> d ps + eval_monos h \<rho> d qs"
  using assms unfolding merge_post_def by blast+

lemma merge_postI:
  assumes "\<forall>x \<in> set res. mono_ok x" and "sorted_wrt exp_lt res"
    and "\<forall>x \<in> set res. \<exists>y \<in> set ps \<union> set qs. mono_exp x = mono_exp y"
    and "\<And>B. \<forall>m \<in> set ps. mono_le B m \<Longrightarrow> \<forall>n \<in> set qs. mono_le B n \<Longrightarrow>
           \<forall>x \<in> set res. mono_le B x"
    and "\<And>\<rho> d. eval_monos h \<rho> d res = eval_monos h \<rho> d ps + eval_monos h \<rho> d qs"
  shows "merge_post h ps qs res"
  using assms unfolding merge_post_def by blast

lemma exp_mem_Cons:
  "\<forall>x \<in> set res. \<exists>y \<in> A. mono_exp x = mono_exp y \<Longrightarrow> A \<subseteq> B \<Longrightarrow>
     \<forall>x \<in> set res. \<exists>y \<in> B. mono_exp x = mono_exp y"
  by blast

lemma merged_ok:
  assumes h: "ring_hom h"
  shows "\<forall>m \<in> set ps. mono_ok m \<Longrightarrow> \<forall>n \<in> set qs. mono_ok n \<Longrightarrow>
     sorted_wrt exp_lt ps \<Longrightarrow> sorted_wrt exp_lt qs \<Longrightarrow>
     (\<And>m n. m \<in> set ps \<Longrightarrow> n \<in> set qs \<Longrightarrow> add_ok h (mono_p m) (mono_p n)) \<Longrightarrow>
     \<exists>res. merged ps qs acc = Inr (acc @ res) \<and> merge_post h ps qs res"
proof (induction "length ps + length qs" arbitrary: ps qs acc rule: less_induct)
  case less
  show ?case
  proof (cases ps)
    case Nil
    then show ?thesis
      using less.prems(2,4) by (simp add: merged_Nil_left mapM_clone merge_post_copy_right)
  next
    case ps: (Cons m ps')
    show ?thesis
    proof (cases qs)
      case Nil
      then show ?thesis
        using less.prems(1,3) by (simp add: merged_Nil_right mapM_clone merge_post_copy_left)
    next
      case qs: (Cons n qs')
      have m: "mono_ok m" "\<forall>x \<in> set ps'. mono_ok x" "sorted_wrt exp_lt ps'"
        "\<forall>x \<in> set ps'. exp_lt m x"
        using less.prems(1,3) ps by auto
      have n: "mono_ok n" "\<forall>x \<in> set qs'. mono_ok x" "sorted_wrt exp_lt qs'"
        "\<forall>x \<in> set qs'. exp_lt n x"
        using less.prems(2,4) qs by auto
      consider (tie) "mono_exp m = mono_exp n" | (right) "mono_exp m \<noteq> mono_exp n" "exp_lt n m"
        | (left) "mono_exp m \<noteq> mono_exp n" "\<not> exp_lt n m" by blast
      then show ?thesis
      proof cases
        case tie
        from less.prems(5) [of m n] ps qs obtain s where s: "PolyAdd (mono_p m) (mono_p n) = Inr s"
          "well_formed s" "\<And>B. exps_le B (mono_p m) \<Longrightarrow> exps_le B (mono_p n) \<Longrightarrow> exps_le B s"
          "\<And>\<rho> d. eval h \<rho> d s = eval h \<rho> d (mono_p m) + eval h \<rho> d (mono_p n)"
          unfolding add_ok_def by auto
        let ?new = "Mono s (mono_exp m)"
        let ?acc = "if \<not> PolyIsZero s then acc @ [?new] else acc"
        have "\<exists>res. merged ps' qs' ?acc = Inr (?acc @ res) \<and> merge_post h ps' qs' res"
          using m n less.prems(5) ps qs by (intro less.hyps) auto
        then obtain res where res: "merged ps' qs' ?acc = Inr (?acc @ res)"
          and post: "merge_post h ps' qs' res" by blast
        note R = merge_postD [OF post]
        let ?res = "(if \<not> PolyIsZero s then [?new] else []) @ res"
        have run: "merged ps qs acc = Inr (acc @ ?res)"
          using tie s(1) res ps qs
          by (cases "PolyIsZero s") (simp_all add: merged_Cons MonoAdd.simps)
        have srt: "sorted_wrt exp_lt (?new # res)"
        proof (rule sorted_cons_from)
          show "sorted_wrt exp_lt res" by (rule R(2))
          show "\<forall>x \<in> set res. \<exists>y \<in> set ps' \<union> set qs'. mono_exp x = mono_exp y" by (rule R(3))
          show "\<forall>y \<in> set ps' \<union> set qs'. sint (mono_exp m) < sint (mono_exp y)"
            using m(4) n(4) tie by auto
        qed
        have ev: "eval_mono h \<rho> d ?new = eval_mono h \<rho> d m + eval_mono h \<rho> d n" for \<rho> d
          using s(4) tie by (simp add: eval_mono_def algebra_simps)
        have z: "PolyIsZero s \<Longrightarrow> eval_mono h \<rho> d m + eval_mono h \<rho> d n = 0" for \<rho> d
          using ev [of \<rho> d] h by (simp add: PolyIsZero_iff ring_hom_zero)
        have new_ok: "mono_ok ?new" using m(1) s(2) by (simp add: mono_ok_def)
        have "merge_post h ps qs ?res"
        proof (rule merge_postI)
          show "\<forall>x \<in> set ?res. mono_ok x" using R(1) new_ok by auto
          show "sorted_wrt exp_lt ?res" using srt by auto
          have "\<forall>x \<in> set res. \<exists>y \<in> set ps \<union> set qs. mono_exp x = mono_exp y"
            using R(3) by (rule exp_mem_Cons) (auto simp: ps qs)
          moreover have "\<exists>y \<in> set ps \<union> set qs. mono_exp ?new = mono_exp y"
            using ps by auto
          ultimately show "\<forall>x \<in> set ?res. \<exists>y \<in> set ps \<union> set qs. mono_exp x = mono_exp y"
            by auto
        next
          fix B
          assume a: "\<forall>m \<in> set ps. mono_le B m" "\<forall>n \<in> set qs. mono_le B n"
          have "\<forall>x \<in> set res. mono_le B x" using a ps qs by (intro R(4)) simp_all
          moreover have "mono_le B ?new"
            using a ps qs s(3) [of B] by (simp add: mono_le_def)
          ultimately show "\<forall>x \<in> set ?res. mono_le B x" by auto
        next
          fix \<rho> d
          show "eval_monos h \<rho> d ?res = eval_monos h \<rho> d ps + eval_monos h \<rho> d qs"
            using R(5) [of \<rho> d] ev [of \<rho> d] z [of \<rho> d]
            by (cases "PolyIsZero s") (simp_all add: ps qs algebra_simps)
        qed
        with run show ?thesis by blast
      next
        case right
        have "\<exists>res. merged ps qs' (acc @ [n]) = Inr ((acc @ [n]) @ res) \<and> merge_post h ps qs' res"
          using less.prems n ps qs by (intro less.hyps) auto
        then obtain res where res: "merged ps qs' (acc @ [n]) = Inr ((acc @ [n]) @ res)"
          and post: "merge_post h ps qs' res" by blast
        note R = merge_postD [OF post]
        have run: "merged ps qs acc = Inr (acc @ n # res)"
          using right res ps qs n(1) by (simp add: merged_Cons mono_ok_clone)
        have srt: "sorted_wrt exp_lt (Mono (mono_p n) (mono_exp n) # res)"
        proof (rule sorted_cons_from)
          show "sorted_wrt exp_lt res" by (rule R(2))
          show "\<forall>x \<in> set res. \<exists>y \<in> set ps \<union> set qs'. mono_exp x = mono_exp y" by (rule R(3))
          show "\<forall>y \<in> set ps \<union> set qs'. sint (mono_exp n) < sint (mono_exp y)"
            using m(4) n(4) right ps by auto
        qed
        have "merge_post h ps qs (n # res)"
        proof (rule merge_postI)
          show "\<forall>x \<in> set (n # res). mono_ok x" using R(1) n(1) by simp
          show "sorted_wrt exp_lt (n # res)" using srt by simp
          have "\<forall>x \<in> set res. \<exists>y \<in> set ps \<union> set qs. mono_exp x = mono_exp y"
            using R(3) by (rule exp_mem_Cons) (auto simp: qs)
          moreover have "\<exists>y \<in> set ps \<union> set qs. mono_exp n = mono_exp y"
            using qs by auto
          ultimately show "\<forall>x \<in> set (n # res). \<exists>y \<in> set ps \<union> set qs. mono_exp x = mono_exp y"
            by simp
        next
          fix B
          assume a: "\<forall>m \<in> set ps. mono_le B m" "\<forall>n \<in> set qs. mono_le B n"
          have "\<forall>x \<in> set res. mono_le B x" using a qs by (intro R(4)) simp_all
          then show "\<forall>x \<in> set (n # res). mono_le B x" using a qs by simp
        next
          fix \<rho> d
          show "eval_monos h \<rho> d (n # res) = eval_monos h \<rho> d ps + eval_monos h \<rho> d qs"
            using R(5) [of \<rho> d] by (simp add: qs algebra_simps)
        qed
        with run show ?thesis by blast
      next
        case left
        have "sint (mono_exp m) \<noteq> sint (mono_exp n)"
          using left(1) signed_word_eqI by blast
        then have lt: "exp_lt m n" using left(2) by simp
        have "\<exists>res. merged ps' qs (acc @ [m]) = Inr ((acc @ [m]) @ res) \<and> merge_post h ps' qs res"
          using less.prems m ps qs by (intro less.hyps) auto
        then obtain res where res: "merged ps' qs (acc @ [m]) = Inr ((acc @ [m]) @ res)"
          and post: "merge_post h ps' qs res" by blast
        note R = merge_postD [OF post]
        have run: "merged ps qs acc = Inr (acc @ m # res)"
          using left res ps qs m(1) by (simp add: merged_Cons mono_ok_clone)
        have srt: "sorted_wrt exp_lt (Mono (mono_p m) (mono_exp m) # res)"
        proof (rule sorted_cons_from)
          show "sorted_wrt exp_lt res" by (rule R(2))
          show "\<forall>x \<in> set res. \<exists>y \<in> set ps' \<union> set qs. mono_exp x = mono_exp y" by (rule R(3))
          show "\<forall>y \<in> set ps' \<union> set qs. sint (mono_exp m) < sint (mono_exp y)"
            using m(4) n(4) lt qs by auto
        qed
        have "merge_post h ps qs (m # res)"
        proof (rule merge_postI)
          show "\<forall>x \<in> set (m # res). mono_ok x" using R(1) m(1) by simp
          show "sorted_wrt exp_lt (m # res)" using srt by simp
          have "\<forall>x \<in> set res. \<exists>y \<in> set ps \<union> set qs. mono_exp x = mono_exp y"
            using R(3) by (rule exp_mem_Cons) (auto simp: ps)
          moreover have "\<exists>y \<in> set ps \<union> set qs. mono_exp m = mono_exp y"
            using ps by auto
          ultimately show "\<forall>x \<in> set (m # res). \<exists>y \<in> set ps \<union> set qs. mono_exp x = mono_exp y"
            by simp
        next
          fix B
          assume a: "\<forall>m \<in> set ps. mono_le B m" "\<forall>n \<in> set qs. mono_le B n"
          have "\<forall>x \<in> set res. mono_le B x" using a ps by (intro R(4)) simp_all
          then show "\<forall>x \<in> set (m # res). mono_le B x" using a ps by simp
        next
          fix \<rho> d
          show "eval_monos h \<rho> d (m # res) = eval_monos h \<rho> d ps + eval_monos h \<rho> d qs"
            using R(5) [of \<rho> d] by (simp add: ps algebra_simps)
        qed
        with run show ?thesis by blast
      qed
    qed
  qed
qed

lemma eval_mono_zero_coeff:
  "ring_hom h \<Longrightarrow> PolyIsZero (mono_p x) \<Longrightarrow> eval_mono h \<rho> d x = 0"
  by (simp add: eval_mono_def PolyIsZero_iff ring_hom_zero)

lemma trim_ok:
  assumes h: "ring_hom h" and ok: "\<forall>x \<in> set res. mono_ok x" and srt: "sorted_wrt exp_lt res"
  shows "\<exists>r. TrimAndInterpretMonoArr res (length res) reserved = Inr r \<and> well_formed r
           \<and> (\<forall>B. (\<forall>x \<in> set res. mono_le B x) \<longrightarrow> exps_le B r)
           \<and> (\<forall>\<rho> d. eval h \<rho> d r = eval_monos h \<rho> d res)"
proof (cases res)
  case Nil
  then show ?thesis using h by (simp add: TrimAndInterpretMonoArr_def ring_hom_zero)
next
  case (Cons x xs)
  have full: "PolyFromSizeAndArray (length res) res = Inr (Terms res)"
    "PolyFromSizeAndArray (length res) (take (length res) res) = Inr (Terms res)"
    using Cons by simp_all
  show ?thesis
  proof (cases "xs = []")
    case True
    consider (zero) "PolyIsZero (mono_p x)"
      | (flat) "\<not> PolyIsZero (mono_p x)" "mono_exp x = 0" "PolyIsCoeff (mono_p x)"
      | (keep) "\<not> PolyIsZero (mono_p x)" "\<not> (mono_exp x = 0 \<and> PolyIsCoeff (mono_p x))"
      by blast
    then show ?thesis
    proof cases
      case zero
      then show ?thesis
        using h Cons True
        by (simp add: TrimAndInterpretMonoArr_def ring_hom_zero eval_mono_zero_coeff)
    next
      case flat
      then obtain c where c: "mono_p x = Coeff c" by (cases "mono_p x") auto
      then show ?thesis
        using flat Cons True
        by (simp add: TrimAndInterpretMonoArr_def Poly_coeff_def eval_mono_def)
    next
      case keep
      have "TrimAndInterpretMonoArr res (length res) reserved = Inr (Terms res)"
        using keep Cons True by (auto simp: TrimAndInterpretMonoArr_def PolyFromSizeAndArray_def)
      moreover have "well_formed (Terms res)"
        using keep Cons True ok by (auto simp: well_formed_Terms)
      ultimately show ?thesis by (simp add: exps_le_Terms eval_Terms)
    qed
  next
    case False
    then have len: "length res \<noteq> 0" "length res \<noteq> 1" using Cons by auto
    have "TrimAndInterpretMonoArr res (length res) reserved = Inr (Terms res)"
      unfolding TrimAndInterpretMonoArr_def using len full by auto
    moreover have "well_formed (Terms res)"
      using len Cons ok srt by (simp add: well_formed_Terms)
    ultimately show ?thesis by (simp add: exps_le_Terms eval_Terms)
  qed
qed

lemma PolyAdd_ok:
  assumes h: "ring_hom h"
  shows "well_formed p \<Longrightarrow> well_formed q \<Longrightarrow> add_ok h p q"
proof (induction "size p + size q" arbitrary: p q rule: less_induct)
  case less
  have IH: "add_ok h (mono_p m) (mono_p n)"
    if "size (mono_p m) + size (mono_p n) < size p + size q"
      "well_formed (mono_p m)" "well_formed (mono_p n)" for m n
    using less.hyps [OF that] .
  show ?case
  proof (cases p)
    case pc: (Coeff a)
    show ?thesis
    proof (cases q)
      case (Coeff b)
      then show ?thesis using pc h by (simp add: add_ok_Coeff_Coeff)
    next
      case (Terms arr)
      have wfq: "well_formed (Terms arr)" using less.prems(2) Terms by simp
      have ih: "add_ok h (mono_p m) (Coeff a)" if "m \<in> set arr" for m
      proof -
        have "size (mono_p m) + size (Coeff a) < size p + size q"
          using size_mono_p_in_list [OF that] pc Terms by simp
        moreover have "well_formed (mono_p m)"
          using less.prems(2) Terms that by (simp add: well_formed_Terms mono_ok_def)
        ultimately show ?thesis using less.hyps by simp
      qed
      have "add_ok h (Terms arr) (Coeff a)"
        using h wfq ih by (rule add_ok_Terms_Coeff)
      then have "add_ok h (Coeff a) (Terms arr)"
        by (rule add_ok_commute [rotated]) simp
      then show ?thesis using pc Terms by simp
    qed
  next
    case pt: (Terms arr_p)
    show ?thesis
    proof (cases q)
      case (Coeff b)
      have wfp: "well_formed (Terms arr_p)" using less.prems(1) pt by simp
      have ih: "add_ok h (mono_p m) (Coeff b)" if "m \<in> set arr_p" for m
      proof -
        have "size (mono_p m) + size (Coeff b) < size p + size q"
          using size_mono_p_in_list [OF that] pt Coeff by simp
        moreover have "well_formed (mono_p m)"
          using less.prems(1) pt that by (simp add: well_formed_Terms mono_ok_def)
        ultimately show ?thesis using less.hyps by simp
      qed
      have "add_ok h (Terms arr_p) (Coeff b)"
        using h wfp ih by (rule add_ok_Terms_Coeff)
      then show ?thesis using pt Coeff by simp
    next
      case (Terms arr_q)
      have wp: "\<forall>m \<in> set arr_p. mono_ok m" "sorted_wrt exp_lt arr_p"
        using less.prems(1) pt by (simp_all add: well_formed_Terms)
      have wq: "\<forall>m \<in> set arr_q. mono_ok m" "sorted_wrt exp_lt arr_q"
        using less.prems(2) Terms by (simp_all add: well_formed_Terms)
      have "add_ok h (mono_p m) (mono_p n)" if "m \<in> set arr_p" "n \<in> set arr_q" for m n
      proof -
        have "size (mono_p m) + size (mono_p n) < size p + size q"
          using size_mono_p_in_list [OF that(1)] size_mono_p_in_list [OF that(2)] pt Terms
          by simp
        then show ?thesis
          using less.hyps wp(1) wq(1) that by (simp add: mono_ok_def)
      qed
      then obtain res where res: "merged arr_p arr_q [] = Inr ([] @ res)"
        and post: "merge_post h arr_p arr_q res"
        using merged_ok [OF h wp(1) wq(1) wp(2) wq(2), of "[]"] by blast
      note R = merge_postD [OF post]
      from trim_ok [OF h R(1) R(2), of "length arr_p + length arr_q"]
      obtain r where r: "TrimAndInterpretMonoArr res (length res) (length arr_p + length arr_q) = Inr r"
        "well_formed r" "\<And>B. \<forall>x \<in> set res. mono_le B x \<Longrightarrow> exps_le B r"
        "\<And>\<rho> d. eval h \<rho> d r = eval_monos h \<rho> d res" by blast
      have run: "PolyAdd p q = Inr r"
        using res r(1) pt Terms by (simp add: PolyAdd_Terms_Terms del: PolyAdd.simps)
      have "exps_le B r" if "exps_le B p" "exps_le B q" for B
        using that pt Terms by (intro r(3) R(4)) (simp_all add: exps_le_Terms)
      moreover have "eval h \<rho> d r = eval h \<rho> d p + eval h \<rho> d q" for \<rho> d
        using r(4) R(5) pt Terms by (simp add: eval_Terms)
      ultimately show ?thesis
        using run r(2) pt Terms unfolding add_ok_def by simp
    qed
  qed
qed

section \<open>Summing monomials: success, well-formedness and meaning\<close>

abbreviation exp_le :: "Mono \<Rightarrow> Mono \<Rightarrow> bool" where
  "exp_le m n \<equiv> sint (mono_exp m) \<le> sint (mono_exp n)"

definition for_post ::
  "(poly_coeff_t \<Rightarrow> 'a :: comm_ring_1) \<Rightarrow> Mono \<Rightarrow> Mono list \<Rightarrow> Mono list \<Rightarrow> bool" where
  "for_post h cur rest res =
     (res \<noteq> [] \<and> (\<forall>x \<in> set res. mono_ok x) \<and> sorted_wrt exp_lt res
      \<and> (\<forall>x \<in> set res. exp_le cur x)
      \<and> (\<forall>B. mono_le B cur \<longrightarrow> (\<forall>x \<in> set rest. mono_le B x) \<longrightarrow> (\<forall>x \<in> set res. mono_le B x))
      \<and> (\<forall>\<rho> d. eval_monos h \<rho> d res = eval_mono h \<rho> d cur + eval_monos h \<rho> d rest))"

lemma for_postD:
  assumes "for_post h cur rest res"
  shows "res \<noteq> []" and "\<forall>x \<in> set res. mono_ok x" and "sorted_wrt exp_lt res"
    and "\<forall>x \<in> set res. exp_le cur x"
    and "\<And>B. mono_le B cur \<Longrightarrow> \<forall>x \<in> set rest. mono_le B x \<Longrightarrow> \<forall>x \<in> set res. mono_le B x"
    and "\<And>\<rho> d. eval_monos h \<rho> d res = eval_mono h \<rho> d cur + eval_monos h \<rho> d rest"
  using assms unfolding for_post_def by blast+

lemma for_postI:
  assumes "res \<noteq> []" and "\<forall>x \<in> set res. mono_ok x" and "sorted_wrt exp_lt res"
    and "\<forall>x \<in> set res. exp_le cur x"
    and "\<And>B. mono_le B cur \<Longrightarrow> \<forall>x \<in> set rest. mono_le B x \<Longrightarrow> \<forall>x \<in> set res. mono_le B x"
    and "\<And>\<rho> d. eval_monos h \<rho> d res = eval_mono h \<rho> d cur + eval_monos h \<rho> d rest"
  shows "for_post h cur rest res"
  using assms unfolding for_post_def by blast

lemma PolyAddMonos_for_ok:
  assumes h: "ring_hom h"
  shows "mono_ok cur \<Longrightarrow> \<forall>x \<in> set rest. mono_ok x \<Longrightarrow> sorted_wrt exp_le (cur # rest) \<Longrightarrow>
     \<exists>res. PolyAddMonos_for kept cur rest = Inr (kept @ res) \<and> for_post h cur rest res"
proof (induction rest arbitrary: kept cur)
  case Nil
  have "for_post h cur [] [cur]" using Nil.prems(1) by (intro for_postI) simp_all
  then show ?case by simp
next
  case (Cons m rest)
  have m: "mono_ok m" "\<forall>x \<in> set rest. mono_ok x" "exp_le cur m" "\<forall>x \<in> set rest. exp_le m x"
    "sorted_wrt exp_le rest"
    using Cons.prems by auto
  show ?case
  proof (cases "mono_exp cur = mono_exp m")
    case True
    have "add_ok h (mono_p cur) (mono_p m)"
      using h Cons.prems(1) m(1) by (intro PolyAdd_ok) (simp_all add: mono_ok_def)
    then obtain s where s: "PolyAdd (mono_p cur) (mono_p m) = Inr s" "well_formed s"
      "\<And>B. exps_le B (mono_p cur) \<Longrightarrow> exps_le B (mono_p m) \<Longrightarrow> exps_le B s"
      "\<And>\<rho> d. eval h \<rho> d s = eval h \<rho> d (mono_p cur) + eval h \<rho> d (mono_p m)"
      unfolding add_ok_def by auto
    let ?new = "Mono s (mono_exp cur)"
    have new_ok: "mono_ok ?new" using Cons.prems(1) s(2) by (simp add: mono_ok_def)
    have "sorted_wrt exp_le (?new # rest)" using m True by simp
    from Cons.IH [OF new_ok m(2) this, of kept]
    obtain res where res: "PolyAddMonos_for kept ?new rest = Inr (kept @ res)"
      and post: "for_post h ?new rest res" by blast
    note R = for_postD [OF post]
    have run: "PolyAddMonos_for kept cur (m # rest) = Inr (kept @ res)"
      using True s(1) res by (simp add: MonoAdd.simps)
    have ev: "eval_mono h \<rho> d ?new = eval_mono h \<rho> d cur + eval_mono h \<rho> d m" for \<rho> d
      using s(4) True by (simp add: eval_mono_def algebra_simps)
    have "for_post h cur (m # rest) res"
    proof (rule for_postI)
      show "res \<noteq> []" by (rule R(1))
      show "\<forall>x \<in> set res. mono_ok x" by (rule R(2))
      show "sorted_wrt exp_lt res" by (rule R(3))
      show "\<forall>x \<in> set res. exp_le cur x" using R(4) by simp
    next
      fix B
      assume a: "mono_le B cur" "\<forall>x \<in> set (m # rest). mono_le B x"
      have "mono_le B ?new" using a s(3) [of B] by (simp add: mono_le_def)
      then show "\<forall>x \<in> set res. mono_le B x" using a by (intro R(5)) simp_all
    next
      fix \<rho> d
      show "eval_monos h \<rho> d res = eval_mono h \<rho> d cur + eval_monos h \<rho> d (m # rest)"
        using R(6) [of \<rho> d] ev [of \<rho> d] by (simp add: algebra_simps)
    qed
    with run show ?thesis by blast
  next
    case False
    then have "sint (mono_exp cur) \<noteq> sint (mono_exp m)" using signed_word_eqI by blast
    then have lt: "exp_lt cur m" using m(3) by simp
    let ?kept = "if \<not> PolyIsZero (mono_p cur) then kept @ [cur] else kept"
    have "sorted_wrt exp_le (m # rest)" using m by simp
    from Cons.IH [OF m(1) m(2) this, of ?kept]
    obtain res where res: "PolyAddMonos_for ?kept m rest = Inr (?kept @ res)"
      and post: "for_post h m rest res" by blast
    note R = for_postD [OF post]
    let ?res = "(if \<not> PolyIsZero (mono_p cur) then [cur] else []) @ res"
    have run: "PolyAddMonos_for kept cur (m # rest) = Inr (kept @ ?res)"
      using False res m(1) by (cases "PolyIsZero (mono_p cur)") (simp_all add: mono_ok_clone)
    have above: "\<forall>x \<in> set res. exp_lt cur x" using R(4) lt by auto
    have "for_post h cur (m # rest) ?res"
    proof (rule for_postI)
      show "?res \<noteq> []" using R(1) by simp
      show "\<forall>x \<in> set ?res. mono_ok x" using R(2) Cons.prems(1) by auto
      show "sorted_wrt exp_lt ?res" using R(3) above by auto
      show "\<forall>x \<in> set ?res. exp_le cur x" using above by auto
    next
      fix B
      assume a: "mono_le B cur" "\<forall>x \<in> set (m # rest). mono_le B x"
      have "\<forall>x \<in> set res. mono_le B x" using a by (intro R(5)) simp_all
      then show "\<forall>x \<in> set ?res. mono_le B x" using a by auto
    next
      fix \<rho> d
      show "eval_monos h \<rho> d ?res = eval_mono h \<rho> d cur + eval_monos h \<rho> d (m # rest)"
        using R(6) [of \<rho> d] eval_mono_zero_coeff [OF h, of cur \<rho> d]
        by (cases "PolyIsZero (mono_p cur)") (simp_all add: algebra_simps)
    qed
    with run show ?thesis by blast
  qed
qed

lemma eval_monos_insort:
  "eval_monos h \<rho> d (insort_key k x xs) = eval_mono h \<rho> d x + eval_monos h \<rho> d xs"
  by (induction xs) (simp_all add: algebra_simps)

lemma eval_monos_MonoSort: "eval_monos h \<rho> d (MonoSort ms) = eval_monos h \<rho> d ms"
  unfolding MonoSort_def by (induction ms) (simp_all add: eval_monos_insort)

lemma MonoSort_props:
  "set (MonoSort ms) = set ms" "sorted_wrt exp_le (MonoSort ms)" "length (MonoSort ms) = length ms"
proof -
  show "set (MonoSort ms) = set ms" "length (MonoSort ms) = length ms"
    by (simp_all add: MonoSort_def)
  have "sorted (map (\<lambda>m. sint (mono_exp m)) (MonoSort ms))"
    unfolding MonoSort_def by (rule sorted_sort_key)
  then show "sorted_wrt exp_le (MonoSort ms)" by (simp add: sorted_wrt_map)
qed

definition sum_ok :: "(poly_coeff_t \<Rightarrow> 'a :: comm_ring_1) \<Rightarrow> Mono list \<Rightarrow> Poly \<Rightarrow> bool" where
  "sum_ok h ms r =
     (well_formed r \<and> (\<forall>B. (\<forall>m \<in> set ms. mono_le B m) \<longrightarrow> exps_le B r)
      \<and> (\<forall>\<rho> d. eval h \<rho> d r = eval_monos h \<rho> d ms))"

lemma PolyAddMonos_ok:
  assumes h: "ring_hom h" and ok: "\<forall>m \<in> set ms. mono_ok m"
  shows "\<exists>r. PolyAddMonos (length ms) ms = Inr r \<and> sum_ok h ms r"
proof (cases "ms = []")
  case True
  then show ?thesis using h by (simp add: PolyAddMonos_def sum_ok_def ring_hom_zero)
next
  case False
  then obtain cur rest where sorted: "MonoSort ms = cur # rest"
    using MonoSort_props(3) [of ms] by (cases "MonoSort ms") auto
  have c: "mono_ok cur" "\<forall>x \<in> set rest. mono_ok x" "sorted_wrt exp_le (cur # rest)"
    using MonoSort_props(1,2) [of ms] ok sorted by auto
  from PolyAddMonos_for_ok [OF h c, of "[]"]
  obtain res where res: "PolyAddMonos_for [] cur rest = Inr ([] @ res)"
    and post: "for_post h cur rest res" by blast
  note R = for_postD [OF post]
  from trim_ok [OF h R(2) R(3), of "length res"]
  obtain r where r: "TrimAndInterpretMonoArr res (length res) (length res) = Inr r"
    "well_formed r" "\<And>B. \<forall>x \<in> set res. mono_le B x \<Longrightarrow> exps_le B r"
    "\<And>\<rho> d. eval h \<rho> d r = eval_monos h \<rho> d res" by blast
  have run: "PolyAddMonos (length ms) ms = Inr r"
    using False sorted res r(1) by (simp add: PolyAddMonos_def)
  have "exps_le B r" if "\<forall>m \<in> set ms. mono_le B m" for B
  proof -
    have "\<forall>m \<in> set (cur # rest). mono_le B m"
      using that MonoSort_props(1) [of ms] sorted by auto
    then show ?thesis by (intro r(3) R(5)) simp_all
  qed
  moreover have "eval h \<rho> d r = eval_monos h \<rho> d ms" for \<rho> d
    using r(4) R(6) eval_monos_MonoSort [of h \<rho> d ms] sorted by simp
  ultimately show ?thesis using run r(2) unfolding sum_ok_def by simp
qed

section \<open>Multiplication and powers\<close>

lemma sint_unat: "0 \<le> sint (a :: poly_exp_t) \<Longrightarrow> int (unat a) = sint a"
proof -
  assume nn: "0 \<le> sint a"
  have s: "sint a = signed_take_bit 31 (uint a)" by (simp add: sint_uint)
  have b: "0 \<le> uint a" "uint a < 2 ^ 32" using uint_lt2p [of a] by simp_all
  have "uint a < 2 ^ 31"
  proof (rule ccontr)
    assume "\<not> uint a < 2 ^ 31"
    then have "signed_take_bit 31 (uint a) \<le> uint a - 2 ^ Suc 31"
      by (intro signed_take_bit_int_less_eq) simp
    moreover have "(2 :: int) ^ Suc 31 = 4294967296" by simp
    moreover have "uint a < 4294967296" using b by simp
    ultimately show False using nn s by linarith
  qed
  moreover have "- ((2 :: int) ^ 31) \<le> uint a"
  proof -
    have "(0 :: int) \<le> 2 ^ 31" by simp
    then show ?thesis using b(1) by linarith
  qed
  ultimately have "signed_take_bit 31 (uint a) = uint a"
    by (intro signed_take_bit_int_eq_self)
  then show ?thesis using s by simp
qed

lemma unat_add_nonneg:
  assumes "0 \<le> sint (a :: poly_exp_t)" "0 \<le> sint b" "sint a + sint b \<le> 2147483647"
  shows "unat (a + b) = unat a + unat b"
proof -
  have "int (unat a) + int (unat b) \<le> 2147483647"
    using sint_unat [OF assms(1)] sint_unat [OF assms(2)] assms(3) by linarith
  then have "unat a + unat b < 4294967296" by linarith
  moreover have "(2 :: nat) ^ LENGTH(32) = 4294967296" by simp
  ultimately have "unat a + unat b < 2 ^ LENGTH(32)" by (simp only:)
  then show ?thesis by (simp only: unat_add_lem)
qed

lemma and1_odd: "(n AND 1 \<noteq> 0) = odd (sint (n :: poly_exp_t))"
  by (metis and_one_eq even_iff_mod_2_eq_zero even_of_int_iff of_int_sint scast_id)


definition mul_ok :: "(poly_coeff_t \<Rightarrow> 'a :: comm_ring_1) \<Rightarrow> nat \<Rightarrow> Poly \<Rightarrow> Poly \<Rightarrow> bool" where
  "mul_ok h C p q =
     (\<exists>r. PolyMul p q = Inr r \<and> well_formed r \<and> exps_le C r
        \<and> (\<forall>\<rho> d. eval h \<rho> d r = eval h \<rho> d p * eval h \<rho> d q))"

lemma list_all2_in_right: "list_all2 P xs ys \<Longrightarrow> y \<in> set ys \<Longrightarrow> \<exists>x \<in> set xs. P x y"
  by (induction rule: list_all2_induct) auto

lemma eval_monos_scaled:
  "list_all2 (\<lambda>x y. eval_mono h \<rho> d y = eval_mono h \<rho> d x * c) xs ys \<Longrightarrow>
     eval_monos h \<rho> d ys = eval_monos h \<rho> d xs * c"
  by (induction rule: list_all2_induct) (simp_all add: algebra_simps)

lemma eval_monos_rows:
  "list_all2 (\<lambda>m row. eval_monos h \<rho> d row = eval_mono h \<rho> d m * c) xs rows \<Longrightarrow>
     eval_monos h \<rho> d (concat rows) = eval_monos h \<rho> d xs * c"
  by (induction rule: list_all2_induct) (simp_all add: algebra_simps)

lemma MonoMulCoeff_Coeff:
  "MonoMulCoeff m (Coeff b) = bnd (PolyMul (mono_p m) (Coeff b)) (\<lambda>r. Inr (Mono r (mono_exp m)))"
  by (simp add: MonoMulCoeff.simps)

lemma mul_ok_Terms_Coeff:
  assumes h: "ring_hom h" and wf: "well_formed (Terms arr)" and le: "exps_le C (Terms arr)"
    and IH: "\<And>m. m \<in> set arr \<Longrightarrow> mul_ok h C (mono_p m) (Coeff b)"
  shows "mul_ok h C (Terms arr) (Coeff b)"
proof (cases "b = 0")
  case True
  then show ?thesis using h by (simp add: mul_ok_def ring_hom_zero)
next
  case False
  let ?R = "\<lambda>m y. mono_exp y = mono_exp m \<and> well_formed (mono_p y) \<and> exps_le C (mono_p y)
      \<and> (\<forall>\<rho> d. eval h \<rho> d (mono_p y) = eval h \<rho> d (mono_p m) * h b)"
  have "\<exists>y. MonoMulCoeff m (Coeff b) = Inr y \<and> ?R m y" if "m \<in> set arr" for m
  proof -
    from IH [OF that] obtain r where "PolyMul (mono_p m) (Coeff b) = Inr r" "well_formed r"
      "exps_le C r" "\<And>\<rho> d. eval h \<rho> d r = eval h \<rho> d (mono_p m) * h b"
      unfolding mul_ok_def by auto
    then show ?thesis by (simp add: MonoMulCoeff_Coeff)
  qed
  then obtain ms where ms: "mapM (\<lambda>m. MonoMulCoeff m (Coeff b)) arr = Inr ms"
    and rel: "list_all2 ?R arr ms"
    using mapM_list_all2 [of arr "\<lambda>m. MonoMulCoeff m (Coeff b)" ?R] by blast
  have len: "length ms = length arr" using rel by (simp add: list_all2_lengthD)
  have src: "\<exists>m \<in> set arr. ?R m x" if "x \<in> set ms" for x
    using list_all2_in_right [OF rel that] .
  have ok: "\<forall>x \<in> set ms. mono_ok x"
  proof
    fix x assume "x \<in> set ms"
    then obtain m where "m \<in> set arr" "?R m x" using src by blast
    then show "mono_ok x" using wf by (simp add: well_formed_Terms mono_ok_def)
  qed
  have mle: "\<forall>x \<in> set ms. mono_le C x"
  proof
    fix x assume "x \<in> set ms"
    then obtain m where "m \<in> set arr" "?R m x" using src by blast
    then show "mono_le C x" using le by (simp add: exps_le_Terms mono_le_def)
  qed
  from PolyAddMonos_ok [OF h ok] obtain r where r: "PolyAddMonos (length ms) ms = Inr r"
    and s: "sum_ok h ms r" by blast
  have run: "PolyMul (Terms arr) (Coeff b) = Inr r"
    using False ms r len by simp
  have "eval h \<rho> d r = eval h \<rho> d (Terms arr) * eval h \<rho> d (Coeff b)" for \<rho> d
  proof -
    have "list_all2 (\<lambda>x y. eval_mono h \<rho> d y = eval_mono h \<rho> d x * h b) arr ms"
      using rel by (rule list_all2_mono) (simp add: eval_mono_def algebra_simps)
    then have "eval_monos h \<rho> d ms = eval_monos h \<rho> d arr * h b"
      by (rule eval_monos_scaled)
    then show ?thesis using s by (simp add: sum_ok_def eval_Terms)
  qed
  then show ?thesis using run s mle unfolding mul_ok_def sum_ok_def by blast
qed

lemma mul_ok_commute: "PolyMul q p = PolyMul p q \<Longrightarrow> mul_ok h C p q \<Longrightarrow> mul_ok h C q p"
  unfolding mul_ok_def by (auto simp: mult.commute)

lemma mul_ok_Terms_Terms:
  assumes h: "ring_hom h" and wfp: "well_formed (Terms ap)" and wfq: "well_formed (Terms aq)"
    and lep: "exps_le A (Terms ap)" and leq: "exps_le B (Terms aq)"
    and bound: "A + B < 2147483648"
    and IH: "\<And>m n. m \<in> set ap \<Longrightarrow> n \<in> set aq \<Longrightarrow> mul_ok h (A + B) (mono_p m) (mono_p n)"
  shows "mul_ok h (A + B) (Terms ap) (Terms aq)"
proof -
  let ?R = "\<lambda>m n y. mono_exp y = mono_exp m + mono_exp n \<and> well_formed (mono_p y)
      \<and> exps_le (A + B) (mono_p y)
      \<and> (\<forall>\<rho> d. eval h \<rho> d (mono_p y) = eval h \<rho> d (mono_p m) * eval h \<rho> d (mono_p n))"
  have one: "\<exists>y. MonoMul m n = Inr y \<and> ?R m n y" if "m \<in> set ap" "n \<in> set aq" for m n
  proof -
    from IH [OF that] obtain r where "PolyMul (mono_p m) (mono_p n) = Inr r" "well_formed r"
      "exps_le (A + B) r"
      "\<And>\<rho> d. eval h \<rho> d r = eval h \<rho> d (mono_p m) * eval h \<rho> d (mono_p n)"
      unfolding mul_ok_def by auto
    then show ?thesis by (simp add: MonoMul.simps)
  qed
  have "\<exists>row. mapM (\<lambda>n. MonoMul m n) aq = Inr row \<and> list_all2 (?R m) aq row"
    if "m \<in> set ap" for m
    using one [OF that] by (intro mapM_list_all2) blast
  then obtain rows where rows: "mapM (\<lambda>m. mapM (\<lambda>n. MonoMul m n) aq) ap = Inr rows"
    and rel: "list_all2 (\<lambda>m row. list_all2 (?R m) aq row) ap rows"
    using mapM_list_all2 [of ap "\<lambda>m. mapM (\<lambda>n. MonoMul m n) aq"
        "\<lambda>m row. list_all2 (?R m) aq row"] by blast
  have src: "\<exists>m \<in> set ap. \<exists>n \<in> set aq. ?R m n x" if "x \<in> set (concat rows)" for x
  proof -
    from that obtain row where row: "row \<in> set rows" "x \<in> set row" by auto
    from list_all2_in_right [OF rel row(1)] obtain m where
      m: "m \<in> set ap" "list_all2 (?R m) aq row" by blast
    from list_all2_in_right [OF m(2) row(2)] m(1) show ?thesis by blast
  qed
  have ex: "0 \<le> sint (mono_exp m)" "sint (mono_exp m) \<le> int A" if "m \<in> set ap" for m
    using wfp lep that by (auto simp: well_formed_Terms mono_ok_def exps_le_Terms mono_le_def)
  have ey: "0 \<le> sint (mono_exp n)" "sint (mono_exp n) \<le> int B" if "n \<in> set aq" for n
    using wfq leq that by (auto simp: well_formed_Terms mono_ok_def exps_le_Terms mono_le_def)
  have sum: "sint (mono_exp m + mono_exp n) = sint (mono_exp m) + sint (mono_exp n)"
    "unat (mono_exp m + mono_exp n) = unat (mono_exp m) + unat (mono_exp n)"
    if "m \<in> set ap" "n \<in> set aq" for m n
    using ex [OF that(1)] ey [OF that(2)] bound
    by (simp_all add: sint_add_no_overflow unat_add_nonneg)
  have ok: "\<forall>x \<in> set (concat rows). mono_ok x \<and> mono_le (A + B) x"
  proof
    fix x assume "x \<in> set (concat rows)"
    then obtain m n where mn: "m \<in> set ap" "n \<in> set aq" "?R m n x" using src by blast
    then show "mono_ok x \<and> mono_le (A + B) x"
      using sum(1) [OF mn(1,2)] ex [OF mn(1)] ey [OF mn(2)]
      by (simp add: mono_ok_def mono_le_def)
  qed
  then have ok1: "\<forall>x \<in> set (concat rows). mono_ok x" by blast
  from PolyAddMonos_ok [OF h ok1] obtain r where
    r: "PolyAddMonos (length (concat rows)) (concat rows) = Inr r"
    and s: "sum_ok h (concat rows) r" by blast
  have run: "PolyMul (Terms ap) (Terms aq) = Inr r"
    using rows r by simp
  have "eval h \<rho> d r = eval h \<rho> d (Terms ap) * eval h \<rho> d (Terms aq)" for \<rho> d
  proof -
    have "list_all2 (\<lambda>m row. eval_monos h \<rho> d row = eval_mono h \<rho> d m * eval_monos h \<rho> d aq)
        ap rows"
      using rel
    proof (rule list.rel_mono_strong)
      fix m row
      assume m: "m \<in> set ap" and a: "list_all2 (?R m) aq row"
      have "list_all2 (\<lambda>n y. eval_mono h \<rho> d y = eval_mono h \<rho> d n * eval_mono h \<rho> d m) aq row"
        using a
      proof (rule list.rel_mono_strong)
        fix n y assume n: "n \<in> set aq" and r: "?R m n y"
        have e: "unat (mono_exp y) = unat (mono_exp m) + unat (mono_exp n)"
          using r sum(2) [OF m n] by simp
        have v: "eval h \<rho> (Suc d) (mono_p y)
            = eval h \<rho> (Suc d) (mono_p m) * eval h \<rho> (Suc d) (mono_p n)"
          using r by simp
        show "eval_mono h \<rho> d y = eval_mono h \<rho> d n * eval_mono h \<rho> d m"
          unfolding eval_mono_def e v by (simp add: power_add algebra_simps)
      qed
      then have "eval_monos h \<rho> d row = eval_monos h \<rho> d aq * eval_mono h \<rho> d m"
        by (rule eval_monos_scaled)
      then show "eval_monos h \<rho> d row = eval_mono h \<rho> d m * eval_monos h \<rho> d aq"
        by (simp add: mult.commute)
    qed
    then have "eval_monos h \<rho> d (concat rows) = eval_monos h \<rho> d ap * eval_monos h \<rho> d aq"
      by (rule eval_monos_rows)
    then show ?thesis using s by (simp add: sum_ok_def eval_Terms)
  qed
  then show ?thesis using run s ok unfolding mul_ok_def sum_ok_def by blast
qed

lemma PolyMul_Coeff_left: "PolyMul (Coeff a) q = PolyMul q (Coeff a)"
  by (cases q) (simp_all add: mult.commute)

lemma PolyMul_ok:
  assumes h: "ring_hom h" and bound: "A + B < 2147483648"
  shows "well_formed p \<Longrightarrow> well_formed q \<Longrightarrow> exps_le A p \<Longrightarrow> exps_le B q \<Longrightarrow>
     mul_ok h (A + B) p q"
proof (induction "size p + size q" arbitrary: p q rule: less_induct)
  case less
  show ?case
  proof (cases p)
    case pc: (Coeff a)
    show ?thesis
    proof (cases q)
      case (Coeff b)
      then show ?thesis using pc h by (simp add: mul_ok_def ring_hom_mult mult.commute)
    next
      case (Terms arr)
      have wfq: "well_formed (Terms arr)" using less.prems(2) Terms by simp
      have leq: "exps_le (A + B) (Terms arr)"
        using less.prems(4) Terms by (auto intro: exps_le_mono)
      have ih: "mul_ok h (A + B) (mono_p m) (Coeff a)" if "m \<in> set arr" for m
      proof -
        have "size (Coeff a) + size (mono_p m) < size p + size q"
          using size_mono_p_in_list [OF that] pc Terms by simp
        moreover have "well_formed (mono_p m)" "exps_le B (mono_p m)"
          using wfq less.prems(4) Terms that
          by (simp_all add: well_formed_Terms mono_ok_def exps_le_Terms mono_le_def)
        ultimately have "mul_ok h (A + B) (Coeff a) (mono_p m)"
          using less.hyps [of "Coeff a" "mono_p m"] by simp
        then show ?thesis by (rule mul_ok_commute [rotated]) (simp add: PolyMul_Coeff_left)
      qed
      have "mul_ok h (A + B) (Terms arr) (Coeff a)"
        using h wfq leq ih by (rule mul_ok_Terms_Coeff)
      then have "mul_ok h (A + B) (Coeff a) (Terms arr)"
        by (rule mul_ok_commute [rotated]) simp
      then show ?thesis using pc Terms by simp
    qed
  next
    case pt: (Terms arr_p)
    have wfp: "well_formed (Terms arr_p)" using less.prems(1) pt by simp
    have lep: "exps_le A (Terms arr_p)" using less.prems(3) pt by simp
    show ?thesis
    proof (cases q)
      case (Coeff b)
      have ih: "mul_ok h (A + B) (mono_p m) (Coeff b)" if "m \<in> set arr_p" for m
      proof -
        have "size (mono_p m) + size (Coeff b) < size p + size q"
          using size_mono_p_in_list [OF that] pt Coeff by simp
        moreover have "well_formed (mono_p m)" "exps_le A (mono_p m)"
          using wfp lep that
          by (simp_all add: well_formed_Terms mono_ok_def exps_le_Terms mono_le_def)
        ultimately show ?thesis using less.hyps [of "mono_p m" "Coeff b"] by simp
      qed
      have "exps_le (A + B) (Terms arr_p)" using lep by (auto intro: exps_le_mono)
      with h wfp have "mul_ok h (A + B) (Terms arr_p) (Coeff b)"
        using ih by (rule mul_ok_Terms_Coeff)
      then show ?thesis using pt Coeff by simp
    next
      case (Terms arr_q)
      have wfq: "well_formed (Terms arr_q)" using less.prems(2) Terms by simp
      have leq: "exps_le B (Terms arr_q)" using less.prems(4) Terms by simp
      have ih: "mul_ok h (A + B) (mono_p m) (mono_p n)"
        if "m \<in> set arr_p" "n \<in> set arr_q" for m n
      proof -
        have "size (mono_p m) + size (mono_p n) < size p + size q"
          using size_mono_p_in_list [OF that(1)] size_mono_p_in_list [OF that(2)] pt Terms
          by simp
        moreover have "well_formed (mono_p m)" "exps_le A (mono_p m)"
          using wfp lep that
          by (simp_all add: well_formed_Terms mono_ok_def exps_le_Terms mono_le_def)
        moreover have "well_formed (mono_p n)" "exps_le B (mono_p n)"
          using wfq leq that
          by (simp_all add: well_formed_Terms mono_ok_def exps_le_Terms mono_le_def)
        ultimately show ?thesis using less.hyps [of "mono_p m" "mono_p n"] by simp
      qed
      have "mul_ok h (A + B) (Terms arr_p) (Terms arr_q)"
        using h wfp wfq lep leq bound ih by (rule mul_ok_Terms_Terms)
      then show ?thesis using pt Terms by simp
    qed
  qed
qed

definition pow_ok ::
  "(poly_coeff_t \<Rightarrow> 'a :: comm_ring_1) \<Rightarrow> nat \<Rightarrow> Poly \<Rightarrow> poly_exp_t \<Rightarrow> bool" where
  "pow_ok h C p e =
     (\<exists>r. PolyPower p e = Some (Inr r) \<and> well_formed r \<and> exps_le C r
        \<and> (\<forall>\<rho> d. eval h \<rho> d r = eval h \<rho> d p ^ nat (sint e)))"

lemma PolyPower_ok:
  assumes h: "ring_hom h"
  shows "well_formed p \<Longrightarrow> exps_le B p \<Longrightarrow> 0 \<le> sint e \<Longrightarrow> nat (sint e) * B < 2147483648 \<Longrightarrow>
     pow_ok h (nat (sint e) * B) p e"
proof (induction "nat (sint e)" arbitrary: p e B rule: less_induct)
  case less
  show ?case
  proof (cases "e = 0 \<or> e = 1")
    case True
    then show ?thesis
    proof
      assume "e = 0"
      then show ?thesis
        using h by (subst pow_ok_def, subst PolyPower.simps) (simp add: ring_hom_one)
    next
      assume "e = 1"
      then show ?thesis
        using less.prems(1,2) PolyClone_id [OF well_formed_arrays_ok [OF less.prems(1)]]
        by (subst pow_ok_def, subst PolyPower.simps) simp
    qed
  next
    case False
    then have e0: "e \<noteq> 0" and e1: "e \<noteq> 1" by simp_all
    have pos: "0 < sint e" using less.prems(3) e0 by (simp add: sint_pos_if)
    have ge: "2 \<le> sint e" using pos e1 by (rule sint_ge_2)
    let ?n = "nat (sint e)"
    have n2: "2 \<le> ?n" using ge by simp
    have "2 * B \<le> ?n * B" by (rule mult_le_mono1 [OF n2])
    then have bb: "B + B < 2147483648" using less.prems(4) by linarith
    from PolyMul_ok [OF h bb less.prems(1) less.prems(1) less.prems(2) less.prems(2)]
    obtain foo1 where foo1: "PolyMul p p = Inr foo1" "well_formed foo1" "exps_le (B + B) foo1"
      "\<And>\<rho> d. eval h \<rho> d foo1 = eval h \<rho> d p * eval h \<rho> d p"
      unfolding mul_ok_def by auto
    show ?thesis
    proof (cases "e AND 1 \<noteq> 0")
      case True
      let ?e' = "int_div (e - 1) 2"
      have odd: "odd (sint e)" using True by (simp add: and1_odd)
      have s: "sint ?e' = (sint e - 1) div 2" using pos by (simp add: sint_int_div_2 sint_minus_1)
      let ?k = "nat (sint ?e')"
      have k: "?n = 2 * ?k + 1" using s odd pos by (auto elim!: oddE)
      have lt: "?k < ?n" using k by simp
      have nn: "0 \<le> sint ?e'" using s pos by simp
      have "?k * (B + B) \<le> ?n * B" using k by (simp add: algebra_simps)
      then have kb: "?k * (B + B) < 2147483648" using less.prems(4) by linarith
      from less.hyps [OF lt foo1(2) foo1(3) nn kb]
      obtain foo2 where foo2: "PolyPower foo1 ?e' = Some (Inr foo2)" "well_formed foo2"
        "exps_le (?k * (B + B)) foo2"
        "\<And>\<rho> d. eval h \<rho> d foo2 = eval h \<rho> d foo1 ^ ?k"
        unfolding pow_ok_def by auto
      have tot: "B + ?k * (B + B) = ?n * B" using k by (simp add: algebra_simps)
      then have "B + ?k * (B + B) < 2147483648" using less.prems(4) by linarith
      from PolyMul_ok [OF h this less.prems(1) foo2(2) less.prems(2) foo2(3)]
      obtain r where r: "PolyMul p foo2 = Inr r" "well_formed r" "exps_le (B + ?k * (B + B)) r"
        "\<And>\<rho> d. eval h \<rho> d r = eval h \<rho> d p * eval h \<rho> d foo2"
        unfolding mul_ok_def by auto
      have run: "PolyPower p e = Some (Inr r)"
        using e0 e1 True foo1(1) foo2(1) r(1) by (subst PolyPower.simps) simp
      have "eval h \<rho> d r = eval h \<rho> d p ^ ?n" for \<rho> d
        using r(4) [of \<rho> d] foo2(4) [of \<rho> d] foo1(4) [of \<rho> d]
        by (simp add: k power_mult power2_eq_square)
      then show ?thesis using run r(2) r(3) tot unfolding pow_ok_def by simp
    next
      case False
      let ?e' = "int_div e 2"
      have even: "even (sint e)" using False by (simp add: and1_odd)
      have s: "sint ?e' = sint e div 2" using pos by (simp add: sint_int_div_2)
      let ?k = "nat (sint ?e')"
      have k: "?n = 2 * ?k" using s even pos by (auto elim!: evenE)
      have lt: "?k < ?n" using k n2 by simp
      have nn: "0 \<le> sint ?e'" using s pos by simp
      have tot: "?k * (B + B) = ?n * B" using k by (simp add: algebra_simps)
      then have kb: "?k * (B + B) < 2147483648" using less.prems(4) by linarith
      from less.hyps [OF lt foo1(2) foo1(3) nn kb]
      obtain r where r: "PolyPower foo1 ?e' = Some (Inr r)" "well_formed r"
        "exps_le (?k * (B + B)) r"
        "\<And>\<rho> d. eval h \<rho> d r = eval h \<rho> d foo1 ^ ?k"
        unfolding pow_ok_def by auto
      have run: "PolyPower p e = Some (Inr r)"
        using e0 e1 False foo1(1) r(1) by (subst PolyPower.simps) simp
      have "eval h \<rho> d r = eval h \<rho> d p ^ ?n" for \<rho> d
        using r(4) [of \<rho> d] foo1(4) [of \<rho> d]
        by (simp add: k power_mult power2_eq_square)
      then show ?thesis using run r(2) r(3) tot unfolding pow_ok_def by simp
    qed
  qed
qed

section \<open>Composition\<close>

lemma bndo_simps [simp]:
  "bndo (Some (Inr x)) f = f x"
  "bndo (Some (Inl e)) f = Some (Inl e)"
  "bndo None f = None"
  by (simp_all add: bndo_def)

lemma MonoComposeHelper_eq:
  "MonoComposeHelper m k var_id q =
     bndo (PolyComposeHelper (mono_p m) k (var_id + 1) q) (\<lambda>coeff.
     if mono_exp m = 0 then Some (Inr coeff)
     else if var_id < k
     then (if var_id < length q
           then bndo (PolyPower (q ! var_id) (mono_exp m)) (\<lambda>after_exp.
                Some (PolyMul coeff after_exp))
           else Some (Inl OutOfBounds))
     else Some (Inr PolyZero))"
  by (cases m) (simp only: MonoComposeHelper.simps Mono.sel)

definition comp_ok ::
  "(poly_coeff_t \<Rightarrow> 'a :: comm_ring_1) \<Rightarrow> nat \<Rightarrow> nat \<Rightarrow> Poly list \<Rightarrow> nat \<Rightarrow> Poly \<Rightarrow> bool" where
  "comp_ok h C k q v p =
     (\<exists>r. PolyComposeHelper p k v q = Some (Inr r) \<and> well_formed r \<and> exps_le C r
        \<and> (\<forall>\<rho>. eval h \<rho> 0 r = eval h (substitution h \<rho> k q) v p))"

definition mono_comp_ok ::
  "(poly_coeff_t \<Rightarrow> 'a :: comm_ring_1) \<Rightarrow> nat \<Rightarrow> nat \<Rightarrow> Poly list \<Rightarrow> nat \<Rightarrow> Mono \<Rightarrow> bool" where
  "mono_comp_ok h C k q v m =
     (\<exists>r. MonoComposeHelper m k v q = Some (Inr r) \<and> well_formed r \<and> exps_le C r
        \<and> (\<forall>\<rho>. eval h \<rho> 0 r = eval_mono h (substitution h \<rho> k q) v m))"

lemma compose_for_ok:
  assumes h: "ring_hom h"
  shows "\<forall>m \<in> set ms. mono_comp_ok h C k q v m \<Longrightarrow> well_formed result \<Longrightarrow> exps_le C result \<Longrightarrow>
     \<exists>r. PolyComposeHelper_for ms k v q result = Some (Inr r) \<and> well_formed r \<and> exps_le C r
        \<and> (\<forall>\<rho>. eval h \<rho> 0 r
              = eval h \<rho> 0 result + eval_monos h (substitution h \<rho> k q) v ms)"
proof (induction ms arbitrary: result)
  case Nil
  then show ?case by simp
next
  case (Cons m ms)
  from Cons.prems(1) obtain c where c: "MonoComposeHelper m k v q = Some (Inr c)"
    "well_formed c" "exps_le C c"
    "\<And>\<rho>. eval h \<rho> 0 c = eval_mono h (substitution h \<rho> k q) v m"
    unfolding mono_comp_ok_def by auto
  from PolyAdd_ok [OF h Cons.prems(2) c(2)] obtain s where s: "PolyAdd result c = Inr s"
    "well_formed s" "\<And>B. exps_le B result \<Longrightarrow> exps_le B c \<Longrightarrow> exps_le B s"
    "\<And>\<rho> d. eval h \<rho> d s = eval h \<rho> d result + eval h \<rho> d c"
    unfolding add_ok_def by auto
  have "exps_le C s" using Cons.prems(3) c(3) by (rule s(3))
  from Cons.IH [OF _ s(2) this] Cons.prems(1)
  obtain r where r: "PolyComposeHelper_for ms k v q s = Some (Inr r)" "well_formed r"
    "exps_le C r"
    "\<And>\<rho>. eval h \<rho> 0 r = eval h \<rho> 0 s + eval_monos h (substitution h \<rho> k q) v ms"
    by auto
  have run: "PolyComposeHelper_for (m # ms) k v q result = Some (Inr r)"
    using c(1) s(1) r(1) by simp
  have "eval h \<rho> 0 r
      = eval h \<rho> 0 result + eval_monos h (substitution h \<rho> k q) v (m # ms)" for \<rho>
    using r(4) [of \<rho>] s(4) [of \<rho> 0] c(4) [of \<rho>] by (simp add: algebra_simps)
  then show ?case using run r(2,3) by blast
qed

lemma exps_le_max: "exps_le 2147483647 p"
proof (induction p rule: Poly_induct)
  case (Coeff c)
  show ?case by simp
next
  case (Terms arr)
  have "sint (mono_exp m) \<le> 2147483647" for m
    using sint_lt [of "mono_exp m"] by simp
  then show ?case using Terms by (simp add: exps_le_Terms mono_le_def)
qed

lemma Compose_ok:
  assumes h: "ring_hom h" and k: "k \<le> length q"
    and qs: "\<forall>i < k. well_formed (q ! i) \<and> exps_le Q (q ! i)"
  shows "well_formed p \<Longrightarrow> compose_fits Q C p \<Longrightarrow> C < 2147483648 \<Longrightarrow> comp_ok h C k q v p"
proof (induction p arbitrary: v C rule: Poly_induct)
  case (Coeff c)
  show ?case by (simp add: comp_ok_def)
next
  case (Terms arr)
  have "mono_comp_ok h C k q v m" if m: "m \<in> set arr" for m
  proof -
    let ?e = "mono_exp m"
    let ?n = "nat (sint ?e)"
    have mo: "0 \<le> sint ?e" "well_formed (mono_p m)"
      using Terms.prems(1) m by (simp_all add: well_formed_Terms mono_ok_def)
    have fit: "?n * Q \<le> C" "compose_fits Q (C - ?n * Q) (mono_p m)"
      using Terms.prems(2) m by simp_all
    have "C - ?n * Q < 2147483648" using Terms.prems(3) by simp
    from Terms.IH [OF m mo(2) fit(2) this, of "v + 1"]
    obtain c where c: "PolyComposeHelper (mono_p m) k (v + 1) q = Some (Inr c)"
      "well_formed c" "exps_le (C - ?n * Q) c"
      "\<And>\<rho>. eval h \<rho> 0 c = eval h (substitution h \<rho> k q) (v + 1) (mono_p m)"
      unfolding comp_ok_def by auto
    have cC: "exps_le C c" using c(3) by (rule exps_le_mono) simp
    have un: "unat ?e = ?n" using sint_unat [OF mo(1)] by linarith
    consider (zero) "?e = 0" | (sub) "?e \<noteq> 0" "v < k" | (out) "?e \<noteq> 0" "\<not> v < k" by blast
    then show ?thesis
    proof cases
      case zero
      have "MonoComposeHelper m k v q = Some (Inr c)"
        using zero c(1) by (simp add: MonoComposeHelper_eq)
      moreover have "eval h \<rho> 0 c = eval_mono h (substitution h \<rho> k q) v m" for \<rho>
        using c(4) [of \<rho>] zero by (simp add: eval_mono_def)
      ultimately show ?thesis using c(2) cC unfolding mono_comp_ok_def by blast
    next
      case sub
      have vq: "v < length q" using sub(2) k by simp
      have qv: "well_formed (q ! v)" "exps_le Q (q ! v)" using qs sub(2) by simp_all
      have "?n * Q < 2147483648" using fit(1) Terms.prems(3) by simp
      from PolyPower_ok [OF h qv mo(1) this]
      obtain a where a: "PolyPower (q ! v) ?e = Some (Inr a)" "well_formed a"
        "exps_le (?n * Q) a" "\<And>\<rho> d. eval h \<rho> d a = eval h \<rho> d (q ! v) ^ ?n"
        unfolding pow_ok_def by auto
      have tot: "(C - ?n * Q) + ?n * Q = C" using fit(1) by simp
      then have "(C - ?n * Q) + ?n * Q < 2147483648" using Terms.prems(3) by simp
      from PolyMul_ok [OF h this c(2) a(2) c(3) a(3)]
      obtain r where r: "PolyMul c a = Inr r" "well_formed r"
        "exps_le ((C - ?n * Q) + ?n * Q) r"
        "\<And>\<rho> d. eval h \<rho> d r = eval h \<rho> d c * eval h \<rho> d a"
        unfolding mul_ok_def by auto
      have "MonoComposeHelper m k v q = Some (Inr r)"
        using sub vq c(1) a(1) r(1) by (simp add: MonoComposeHelper_eq)
      moreover have "eval h \<rho> 0 r = eval_mono h (substitution h \<rho> k q) v m" for \<rho>
        using r(4) [of \<rho> 0] c(4) [of \<rho>] a(4) [of \<rho> 0] sub(2) un
        by (simp add: eval_mono_def substitution_def)
      ultimately show ?thesis using r(2) r(3) tot unfolding mono_comp_ok_def by auto
    next
      case out
      have "MonoComposeHelper m k v q = Some (Inr (Coeff 0))"
        using out c(1) by (simp add: MonoComposeHelper_eq)
      moreover have "0 < ?n" using out(1) mo(1) sint_pos_if by simp
      then have "eval h \<rho> 0 (Coeff 0) = eval_mono h (substitution h \<rho> k q) v m" for \<rho>
        using out(2) un h by (simp add: eval_mono_def substitution_def ring_hom_zero power_0_left)
      ultimately show ?thesis unfolding mono_comp_ok_def by auto
    qed
  qed
  then have all: "\<forall>m \<in> set arr. mono_comp_ok h C k q v m" by blast
  from compose_for_ok [OF h all, of "Coeff 0"]
  obtain r where r: "PolyComposeHelper_for arr k v q (Coeff 0) = Some (Inr r)" "well_formed r"
    "exps_le C r"
    "\<And>\<rho>. eval h \<rho> 0 r = eval h \<rho> 0 (Coeff 0) + eval_monos h (substitution h \<rho> k q) v arr"
    by auto
  have "eval h \<rho> 0 r = eval h (substitution h \<rho> k q) v (Terms arr)" for \<rho>
    using r(4) [of \<rho>] h by (simp add: eval_Terms ring_hom_zero)
  then show ?case using r(1,2,3) unfolding comp_ok_def by simp
qed

section \<open>Totality of the operators\<close>

lemma ring_hom_id: "ring_hom (\<lambda>w. w)"
  by (simp add: ring_hom_def)

lemma compose_fits_zero: "well_formed p \<Longrightarrow> compose_fits 0 C p"
  by (induction p arbitrary: C rule: Poly_induct)
     (simp_all add: well_formed_Terms mono_ok_def)

lemma list_all2_map_eq:
  "list_all2 (\<lambda>m n. f n = f m) xs ys \<Longrightarrow> map f ys = map f xs"
  by (induction rule: list_all2_induct) simp_all

lemma sorted_exps_transfer:
  assumes "map mono_exp ys = map mono_exp xs" and "sorted_wrt exp_lt xs"
  shows "sorted_wrt exp_lt ys"
proof -
  have "sorted_wrt (\<lambda>a b. sint a < sint b) (map mono_exp xs)"
    using assms(2) by (simp add: sorted_wrt_map)
  then have "sorted_wrt (\<lambda>a b. sint a < sint b) (map mono_exp ys)"
    using assms(1) by simp
  then show ?thesis by (simp add: sorted_wrt_map)
qed

lemma PolyNeg_ok:
  "canonical p \<Longrightarrow>
     \<exists>n. PolyNeg p = Inr n \<and> canonical n \<and> PolyIsCoeff n = PolyIsCoeff p
        \<and> PolyIsZero n = PolyIsZero p"
proof (induction p rule: Poly_induct)
  case (Coeff c)
  show ?case by simp
next
  case (Terms arr)
  let ?R = "\<lambda>m n. mono_exp n = mono_exp m \<and> canonical_mono n
      \<and> PolyIsCoeff (mono_p n) = PolyIsCoeff (mono_p m)"
  have "\<exists>n. MonoNeg m = Inr n \<and> ?R m n" if "m \<in> set arr" for m
  proof -
    have c: "canonical (mono_p m)" "\<not> PolyIsZero (mono_p m)" "0 \<le> sint (mono_exp m)"
      using Terms.prems that by (auto simp: canonical_mono_eq)
    from Terms.IH [OF that c(1)] obtain np where
      "PolyNeg (mono_p m) = Inr np" "canonical np" "PolyIsCoeff np = PolyIsCoeff (mono_p m)"
      "PolyIsZero np = PolyIsZero (mono_p m)" by auto
    then show ?thesis using c by (simp add: MonoNeg_eq MonoFromPoly_def canonical_mono_eq)
  qed
  then obtain narr where narr: "mapM MonoNeg arr = Inr narr" and rel: "list_all2 ?R arr narr"
    using mapM_list_all2 [of arr MonoNeg ?R] by auto
  have len: "length narr = length arr" using rel by (simp add: list_all2_lengthD)
  have ne: "arr \<noteq> []" "narr \<noteq> []" using Terms.prems len by auto
  have neg: "PolyNeg (Terms arr) = Inr (Terms narr)"
    using narr ne len by (simp add: PolyFromSizeAndArray_def)
  have cm: "\<forall>n \<in> set narr. canonical_mono n"
    using list_all2_in_right [OF rel] by blast
  have "list_all2 (\<lambda>m n. mono_exp n = mono_exp m) arr narr"
    using rel by (rule list_all2_mono) simp
  then have "map mono_exp narr = map mono_exp arr" by (rule list_all2_map_eq)
  then have srt: "sorted_wrt exp_lt narr"
    using Terms.prems by (intro sorted_exps_transfer [of narr arr]) simp_all
  have flat: "\<not> (length narr = 1 \<and> mono_exp (hd narr) = 0 \<and> PolyIsCoeff (mono_p (hd narr)))"
  proof
    assume a: "length narr = 1 \<and> mono_exp (hd narr) = 0 \<and> PolyIsCoeff (mono_p (hd narr))"
    then obtain n where n: "narr = [n]" by (cases narr) auto
    then obtain m where m: "arr = [m]" using len by (cases arr) auto
    have "?R m n" using rel n m by simp
    then show False using a n m Terms.prems by simp
  qed
  have "canonical (Terms narr)" using ne cm srt flat by simp
  with neg show ?case by auto
qed

lemma max_for_total:
  "(\<And>m. m \<in> set arr \<Longrightarrow> \<exists>d. f m = Inr d) \<Longrightarrow> \<exists>d. max_for f arr a = Inr d"
proof (induction arr arbitrary: a)
  case Nil
  show ?case by simp
next
  case (Cons m arr)
  from Cons.prems [of m] obtain d where "f m = Inr d" by auto
  then show ?case using Cons.IH Cons.prems by simp
qed

lemma PolyDegBy_total: "arrays_ok p \<Longrightarrow> \<exists>d. PolyDegBy p v = Inr d"
proof (induction p arbitrary: v rule: Poly_induct)
  case (Coeff c)
  show ?case by simp
next
  case (Terms arr)
  have "\<exists>d. max_for (\<lambda>m. PolyDegBy (mono_p m) (v - 1)) arr (- 1) = Inr d"
    using Terms by (intro max_for_total) simp
  then show ?case using Terms.prems by simp
qed

lemma PolyAt_for_total:
  "\<forall>m \<in> set ms. mono_ok m \<Longrightarrow> well_formed result \<Longrightarrow> \<exists>r. PolyAt_for ms x result = Inr r"
proof (induction ms arbitrary: result)
  case Nil
  show ?case by simp
next
  case (Cons m ms)
  have m: "0 \<le> sint (mono_exp m)" "well_formed (mono_p m)"
    using Cons.prems(1) by (simp_all add: mono_ok_def)
  from PowerOf_total [OF m(1)] obtain c where c: "PowerOf x (mono_exp m) = Inr c" by blast
  have "(2147483647 :: nat) + 0 < 2147483648" by simp
  from PolyMul_ok [OF ring_hom_id this m(2) _ exps_le_max, of "Coeff c"]
  obtain t where t: "PolyMul (mono_p m) (Coeff c) = Inr t" "well_formed t"
    unfolding mul_ok_def by auto
  from PolyAdd_ok [OF ring_hom_id Cons.prems(2) t(2)]
  obtain s where s: "PolyAdd result t = Inr s" "well_formed s"
    unfolding add_ok_def by auto
  from Cons.IH [OF _ s(2)] Cons.prems(1) obtain r where "PolyAt_for ms x s = Inr r" by auto
  then show ?case using c t(1) s(1) by (simp add: MonoAt_def)
qed

lemma PolyAt_total: "well_formed p \<Longrightarrow> \<exists>r. PolyAt p x = Inr r"
proof (cases p)
  case (Coeff c)
  then show ?thesis by (simp add: PolyAt_def)
next
  case (Terms arr)
  assume "well_formed p"
  then have "\<forall>m \<in> set arr. mono_ok m" using Terms by (simp add: well_formed_Terms)
  then have "\<exists>r. PolyAt_for arr x (Coeff 0) = Inr r" by (intro PolyAt_for_total) simp_all
  then show ?thesis using Terms by (simp add: PolyAt_def)
qed


text \<open>
  Two canonical polynomials in three variables on which \<^verbatim>\<open>PolyMul\<close> fails. The exponent
  \<open>2\<^sup>3\<^sup>1 - 2\<close> of the innermost variable doubles to \<open>-4\<close> in 32 bits; a constant added
  to a coefficient that starts with a negative exponent is put in front of it, so the
  coefficient is no longer sorted, the merge of two such coefficients leaves two
  exponent-0 terms next to each other, and two further additions of a constant remove
  first one and then the other.
\<close>

definition overflow_p :: Poly where
  "overflow_p =
     Terms [Mono (Terms [Mono (Coeff 1) 0,
                         Mono (Terms [Mono (Coeff 1) 0, Mono (Coeff 1) 2147483646]) 1]) 0,
            Mono (Terms [Mono (Coeff 1) 0, Mono (Terms [Mono (Coeff 1) 2147483646]) 1]) 1,
            Mono (Terms [Mono (Coeff (- 2)) 1]) 2,
            Mono (Terms [Mono (Coeff (- 1)) 1]) 3]"

definition overflow_q :: Poly where
  "overflow_q =
     Terms [Mono (Coeff 1) 0,
            Mono (Coeff 1) 1,
            Mono (Terms [Mono (Terms [Mono (Coeff (- 2)) 0, Mono (Coeff (- 1)) 2147483646]) 0,
                         Mono (Coeff 1) 1]) 2,
            Mono (Terms [Mono (Terms [Mono (Coeff 1) 0, Mono (Coeff 1) 2147483646]) 0,
                         Mono (Coeff 1) 1]) 3]"


text \<open>
  Claim C6. On canonical inputs every arithmetic operator is claimed to have no failure
  path: no internal assertion can fire. \<^verbatim>\<open>PolyMul\<close> on the two canonical polynomials above,
  all of whose exponents lie between 0 and \<open>2\<^sup>3\<^sup>1 - 1\<close>, ends in the assertion
  \<^verbatim>\<open>arr != NULL && size != 0\<close> of \<^verbatim>\<open>PolyFromSizeAndArray\<close>: the code breaks its own
  assertion, reached from \<^verbatim>\<open>PolyAddCoeffIfPhasConst\<close> with an array of size 0 inside the
  final \<^verbatim>\<open>PolyAddMonos\<close>.
\<close>

theorem C6_PolyMul_assertion_fires:
  "canonical overflow_p \<and> canonical overflow_q
   \<and> PolyMul overflow_p overflow_q = Inl AssertionFailed"
  by code_simp


text \<open>
  The failure above needs an exponent sum beyond \<open>2\<^sup>3\<^sup>1 - 1\<close>. On canonical inputs
  \<^verbatim>\<open>PolyAdd\<close>, \<^verbatim>\<open>PolyNeg\<close>, \<^verbatim>\<open>PolySub\<close>, \<^verbatim>\<open>PolyDegBy\<close> and \<^verbatim>\<open>PolyAt\<close> return a result;
  \<^verbatim>\<open>PolyMul\<close> returns a result when the largest exponents of \<open>p\<close> and \<open>q\<close> sum to at most
  \<open>2\<^sup>3\<^sup>1 - 1\<close>; \<^verbatim>\<open>PolyCompose\<close> returns a result when \<open>k = 0\<close> or the exponents fit the bound
  \<open>2\<^sup>3\<^sup>1 - 1\<close> in the sense of \<open>compose_fits\<close>. (\<^verbatim>\<open>PolyDeg\<close> and \<^verbatim>\<open>PolyIsEq\<close> contain no
  assertion; they are total functions by their definitions.)
\<close>

theorem operators_total_without_exponent_overflow:
  assumes "canonical p" and "canonical q"
  shows "(\<exists>r. PolyAdd p q = Inr r) \<and> (\<exists>r. PolyNeg p = Inr r) \<and> (\<exists>r. PolySub p q = Inr r)
     \<and> (\<exists>d. PolyDegBy p var_idx = Inr d) \<and> (\<exists>r. PolyAt p x = Inr r)
     \<and> (exps_le A p \<and> exps_le B q \<and> A + B \<le> 2147483647 \<longrightarrow> (\<exists>r. PolyMul p q = Inr r))
     \<and> (k \<le> length qs \<and> (\<forall>i < k. canonical (qs ! i) \<and> exps_le Q (qs ! i))
          \<and> (k = 0 \<or> compose_fits Q 2147483647 p)
        \<longrightarrow> (\<exists>r. PolyCompose p k qs = Some (Inr r)))"
proof (intro conjI impI)
  have wp: "well_formed p" and wq: "well_formed q"
    using assms by (simp_all add: canonical_well_formed)
  show "\<exists>r. PolyAdd p q = Inr r"
    using PolyAdd_ok [OF ring_hom_id wp wq] unfolding add_ok_def by blast
  show "\<exists>r. PolyNeg p = Inr r" using PolyNeg_ok [OF assms(1)] by blast
  show "\<exists>r. PolySub p q = Inr r"
  proof -
    from PolyNeg_ok [OF assms(2)] obtain n where n: "PolyNeg q = Inr n" "canonical n" by blast
    from PolyAdd_ok [OF ring_hom_id wp canonical_well_formed [OF n(2)]]
    obtain r where "PolyAdd p n = Inr r" unfolding add_ok_def by blast
    then show ?thesis using n(1) by (simp add: PolySub_def)
  qed
  show "\<exists>d. PolyDegBy p var_idx = Inr d"
    using assms(1) by (intro PolyDegBy_total canonical_arrays_ok)
  show "\<exists>r. PolyAt p x = Inr r" using wp by (rule PolyAt_total)
  show "\<exists>r. PolyMul p q = Inr r" if "exps_le A p \<and> exps_le B q \<and> A + B \<le> 2147483647"
  proof -
    have "A + B < 2147483648" using that by simp
    from PolyMul_ok [OF ring_hom_id this wp wq] that show ?thesis
      unfolding mul_ok_def by blast
  qed
  show "\<exists>r. PolyCompose p k qs = Some (Inr r)"
    if a: "k \<le> length qs \<and> (\<forall>i < k. canonical (qs ! i) \<and> exps_le Q (qs ! i))
      \<and> (k = 0 \<or> compose_fits Q 2147483647 p)"
  proof -
    let ?Q = "if k = 0 then 0 else Q"
    have "\<forall>i < k. well_formed (qs ! i) \<and> exps_le ?Q (qs ! i)"
      using a by (auto simp: canonical_well_formed)
    moreover have "compose_fits ?Q 2147483647 p"
      using a wp by (auto simp: compose_fits_zero)
    ultimately have "comp_ok (\<lambda>w. w) 2147483647 k qs 0 p"
      using a wp by (intro Compose_ok [OF ring_hom_id]) simp_all
    then show ?thesis unfolding comp_ok_def PolyCompose_def by blast
  qed
qed


theorem operators_total_without_exponent_overflow_witness:
  "canonical (Terms [Mono (Coeff 2) 0, Mono (Coeff 3) 2])
   \<and> canonical (Terms [Mono (Coeff 1) 0, Mono (Coeff 1) 1])
   \<and> (\<exists>r. PolyAdd (Terms [Mono (Coeff 2) 0, Mono (Coeff 3) 2])
              (Terms [Mono (Coeff 1) 0, Mono (Coeff 1) 1]) = Inr r)
   \<and> (\<exists>r. PolyMul (Terms [Mono (Coeff 2) 0, Mono (Coeff 3) 2])
              (Terms [Mono (Coeff 1) 0, Mono (Coeff 1) 1]) = Inr r)
   \<and> (\<exists>r. PolyCompose (Terms [Mono (Coeff 2) 0, Mono (Coeff 3) 2]) 1
              [Terms [Mono (Coeff 1) 0, Mono (Coeff 1) 1]] = Some (Inr r))"
proof -
  let ?p = "Terms [Mono (Coeff 2) 0, Mono (Coeff 3) 2]"
  let ?q = "Terms [Mono (Coeff 1) 0, Mono (Coeff 1) 1]"
  have p: "canonical ?p" by code_simp
  have q: "canonical ?q" by code_simp
  have a: "exps_le 2 ?p" by (simp add: exps_le.simps)
  have e: "exps_le 1 ?q" by (simp add: exps_le.simps)
  have f: "compose_fits 1 2147483647 ?p" by simp
  have qs: "\<forall>i < 1. canonical ([?q] ! i) \<and> exps_le 1 ([?q] ! i)" using q e by simp
  from operators_total_without_exponent_overflow [OF p q, of 0 0 2 1 1 "[?q]" 1]
  show ?thesis using p q a e f qs by simp
qed

section \<open>Composition is substitution\<close>

text \<open>
  Claim C2, as stated: for all canonical \<open>p\<close> and \<open>q\<close>, \<^verbatim>\<open>PolyCompose\<close> returns \<open>p\<close> with
  \<open>q[i]\<close> substituted for \<open>x\<^sub>i\<close>. It fails for \<open>p = x\<^sup>4\<close> and \<open>q[0] = x\<^sup>e\<close> with
  \<open>e = 2\<^sup>3\<^sup>0\<close>: the exponent \<open>4 e\<close> wraps to 0 and the result is the constant 1, whose
  value at 0 is not the value of \<open>p\<close> at the value of \<open>q[0]\<close> at 0.
\<close>

theorem C2_counterexample:
  "canonical (Terms [Mono (Coeff 1) 4]) \<and> canonical (Terms [Mono (Coeff 1) 1073741824])
   \<and> PolyCompose (Terms [Mono (Coeff 1) 4]) 1 [Terms [Mono (Coeff 1) 1073741824]]
       = Some (Inr (Coeff 1))
   \<and> eval (\<lambda>w. w) (\<lambda>i. 0) 0 (Coeff 1)
       \<noteq> eval (\<lambda>w. w)
           (substitution (\<lambda>w. w) (\<lambda>i. 0) 1 [Terms [Mono (Coeff 1) 1073741824]]) 0
           (Terms [Mono (Coeff 1) 4])"
proof -
  have "canonical (Terms [Mono (Coeff 1) 4])" "canonical (Terms [Mono (Coeff 1) 1073741824])"
    by code_simp+
  moreover have "PolyCompose (Terms [Mono (Coeff 1) 4]) 1 [Terms [Mono (Coeff 1) 1073741824]]
       = Some (Inr (Coeff 1))"
    by code_simp
  moreover have "eval (\<lambda>w. w) (\<lambda>i. 0) 0 (Coeff 1)
       \<noteq> eval (\<lambda>w. w)
           (substitution (\<lambda>w. w) (\<lambda>i. 0) 1 [Terms [Mono (Coeff 1) 1073741824]]) 0
           (Terms [Mono (Coeff 1) 4])"
    by (simp add: eval.simps substitution_def)
  ultimately show ?thesis by blast
qed


text \<open>
  Claim C2, amended: for every canonical \<open>p\<close> and every array of at least \<open>k\<close> canonical
  polynomials, when \<open>k = 0\<close> or the exponents fit the bound \<open>2\<^sup>3\<^sup>1 - 1\<close> (\<open>compose_fits\<close>),
  \<^verbatim>\<open>PolyCompose(p, k, q)\<close> returns a polynomial whose meaning, under every ring
  homomorphism of the coefficients and every valuation of the variables, is the meaning of
  \<open>p\<close> with \<open>q[i]\<close> substituted for \<open>x\<^sub>i\<close> when \<open>i < k\<close> and zero for every other variable.
\<close>

theorem C2_compose_substitutes:
  assumes "ring_hom h" and "canonical p" and "k \<le> length q"
    and "\<forall>i < k. canonical (q ! i) \<and> exps_le Q (q ! i)"
    and "k = 0 \<or> compose_fits Q 2147483647 p"
  shows "\<exists>r. PolyCompose p k q = Some (Inr r)
           \<and> (\<forall>\<rho>. eval h \<rho> 0 r = eval h (substitution h \<rho> k q) 0 p)"
proof -
  let ?Q = "if k = 0 then 0 else Q"
  have wp: "well_formed p" using assms(2) by (rule canonical_well_formed)
  have "\<forall>i < k. well_formed (q ! i) \<and> exps_le ?Q (q ! i)"
    using assms(4) by (auto simp: canonical_well_formed)
  moreover have "compose_fits ?Q 2147483647 p"
    using assms(5) wp by (auto simp: compose_fits_zero)
  ultimately have "comp_ok h 2147483647 k q 0 p"
    using assms(1,3) wp by (intro Compose_ok) simp_all
  then show ?thesis unfolding comp_ok_def PolyCompose_def by blast
qed

theorem C2_compose_substitutes_witness:
  "ring_hom (\<lambda>w :: poly_coeff_t. w)
   \<and> canonical (Terms [Mono (Coeff 2) 0, Mono (Coeff 3) 2])
   \<and> canonical (Terms [Mono (Coeff 1) 0, Mono (Coeff 1) 1])
   \<and> compose_fits 1 2147483647 (Terms [Mono (Coeff 2) 0, Mono (Coeff 3) 2])
   \<and> (\<exists>r. PolyCompose (Terms [Mono (Coeff 2) 0, Mono (Coeff 3) 2]) 1
              [Terms [Mono (Coeff 1) 0, Mono (Coeff 1) 1]] = Some (Inr r)
         \<and> (\<forall>\<rho>. eval (\<lambda>w. w) \<rho> 0 r
               = eval (\<lambda>w. w)
                   (substitution (\<lambda>w. w) \<rho> 1 [Terms [Mono (Coeff 1) 0, Mono (Coeff 1) 1]]) 0
                   (Terms [Mono (Coeff 2) 0, Mono (Coeff 3) 2])))"
proof -
  let ?p = "Terms [Mono (Coeff 2) 0, Mono (Coeff 3) 2]"
  let ?q = "Terms [Mono (Coeff 1) 0, Mono (Coeff 1) 1]"
  have h: "ring_hom (\<lambda>w :: poly_coeff_t. w)" by (simp add: ring_hom_def)
  have p: "canonical ?p" by code_simp
  have q: "canonical ?q" by code_simp
  have e: "exps_le 1 ?q" by (simp add: exps_le.simps)
  have f: "compose_fits 1 2147483647 ?p" by simp
  have k: "(1 :: nat) \<le> length [?q]" by simp
  have qs: "\<forall>i < 1. canonical ([?q] ! i) \<and> exps_le 1 ([?q] ! i)" using q e by simp
  from C2_compose_substitutes [OF h p k qs disjI2 [OF f]] show ?thesis
    using h p q f by blast
qed


end
